theory Spec2Isabelle
  imports Main "HOL-Library.AList"
begin

section \<open>The namespace registrar and readiness notifier of bloomberg.js\<close>

text \<open>
  This theory embeds \<^verbatim>\<open>Base.prototype.namespace\<close> and \<^verbatim>\<open>Base.prototype.ready\<close>
  of \<^verbatim>\<open>src/javascripts/vendor/bloomberg.js\<close>. Both work on shared mutable JavaScript
  objects, and the container a registration returns may be the very object the caller
  passed in, so objects live in an explicit store and values refer to them by address.

  What the embedding leaves out of JavaScript:
  \<^item> only own properties are looked up. The members the root object inherits from
    \<^verbatim>\<open>Base.prototype\<close> are placed on the root object itself; the built-in members of
    \<^verbatim>\<open>Object.prototype\<close>, \<^verbatim>\<open>Function.prototype\<close> and the primitive wrappers (such as
    \<^verbatim>\<open>constructor\<close>, \<^verbatim>\<open>toString\<close>, \<^verbatim>\<open>length\<close>) are absent, so path segments, member
    keys and registry keys are taken not to name one of them;
  \<^item> every modelled property is enumerable and writable, and \<^verbatim>\<open>for (key in literal)\<close>
    visits the own keys the literal has when the loop starts, in insertion order;
  \<^item> callbacks are opaque identifiers: invoking one appends to a log, and what the
    callback itself does is not modelled;
  \<^item> Backbone's \<^verbatim>\<open>extend\<close> and jQuery's \<^verbatim>\<open>on\<close>/\<^verbatim>\<open>trigger\<close> are libraries outside the
    repository; they are modelled from their documented behaviour.
\<close>

subsection \<open>Values and the object store\<close>

type_synonym addr = nat

datatype prim = PStr string | PNum int | PBool bool

datatype val = Undefined | Null | Prim prim | Ref addr

text \<open>
  An object is plain, a function whose body is outside this development, or the one
  function that \<^verbatim>\<open>namespace\<close> calls: Backbone's class helper \<^verbatim>\<open>extend\<close>.
\<close>

datatype kind = Plain | Function | BackboneExtend

record obj =
  props :: "(string \<times> val) list"
  kind :: kind

type_synonym heap = "obj list"

definition alloc :: "heap \<Rightarrow> obj \<Rightarrow> addr \<times> heap" where
  "alloc h ob = (length h, h @ [ob])"

definition new_object :: "heap \<Rightarrow> (string \<times> val) list \<Rightarrow> addr \<times> heap" where
  \<comment> \<open>an object literal \<^verbatim>\<open>{k: v, ...}\<close>\<close>
  "new_object h kvs = alloc h \<lparr>props = kvs, kind = Plain\<rparr>"

text \<open>
  \<^verbatim>\<open>base[key]\<close>: \<open>None\<close> is the TypeError JavaScript raises when the base is
  \<^verbatim>\<open>undefined\<close> or \<^verbatim>\<open>null\<close>; a missing property reads as \<^verbatim>\<open>undefined\<close>.
\<close>

fun get_prop :: "heap \<Rightarrow> val \<Rightarrow> string \<Rightarrow> val option" where
  "get_prop h Undefined k = None"
| "get_prop h Null k = None"
| "get_prop h (Prim p) k = Some Undefined"
| "get_prop h (Ref a) k =
     (if a < length h
      then Some (case map_of (props (h ! a)) k of None \<Rightarrow> Undefined | Some v \<Rightarrow> v)
      else None)"

text \<open>
  \<^verbatim>\<open>base[key] = v\<close> in strict mode (the file's enclosing function starts with
  \<^verbatim>\<open>"use strict"\<close>): a TypeError on \<^verbatim>\<open>undefined\<close>, \<^verbatim>\<open>null\<close> and on a primitive base.
\<close>

fun put_prop :: "heap \<Rightarrow> val \<Rightarrow> string \<Rightarrow> val \<Rightarrow> heap option" where
  "put_prop h (Ref a) k v =
     (if a < length h
      then Some (h[a := (h ! a)\<lparr>props := AList.update k v (props (h ! a))\<rparr>])
      else None)"
| "put_prop h _ k v = None"

fun own_keys :: "heap \<Rightarrow> val \<Rightarrow> string list" where
  "own_keys h (Ref a) = (if a < length h then map fst (props (h ! a)) else [])"
| "own_keys h _ = []"

subsection \<open>Strings\<close>

fun split_on :: "char \<Rightarrow> string \<Rightarrow> string list" where
  \<comment> \<open>\<^verbatim>\<open>String.prototype.split\<close> with a one-character separator\<close>
  "split_on c [] = [[]]"
| "split_on c (x # xs) =
     (if x = c then [] # split_on c xs
      else (case split_on c xs of
              [] \<Rightarrow> [[x]]
            | y # ys \<Rightarrow> (x # y) # ys))"

definition path_parts :: "string \<Rightarrow> string list" where
  \<comment> \<open>\<^verbatim>\<open>namespace ? namespace.split(".") : []\<close>\<close>
  "path_parts ns = (if ns = [] then [] else split_on (CHR ''.'') ns)"

definition rootObject :: string where
  "rootObject = ''bloomberg''"

definition full_name :: "string \<Rightarrow> string" where
  \<comment> \<open>\<^verbatim>\<open>namespace ? rootObject + "." + namespace : rootObject\<close>\<close>
  "full_name ns = (if ns = [] then rootObject else rootObject @ ''.'' @ ns)"

fun digits :: "nat \<Rightarrow> nat \<Rightarrow> string" where
  "digits 0 n = []"
| "digits (Suc f) n =
     (if n < 10 then [char_of (48 + n)] else digits f (n div 10) @ [char_of (48 + n mod 10)])"

fun to_string :: "val \<Rightarrow> string" where
  \<comment> \<open>the string a value becomes as a property key or in a concatenation\<close>
  "to_string Undefined = ''undefined''"
| "to_string Null = ''null''"
| "to_string (Prim (PStr s)) = s"
| "to_string (Prim (PBool b)) = (if b then ''true'' else ''false'')"
| "to_string (Prim (PNum i)) =
     (if i < 0 then ''-'' @ digits (Suc (nat (- i))) (nat (- i)) else digits (Suc (nat i)) (nat i))"
| "to_string (Ref a) = ''[object Object]''"

subsection \<open>The loop of \<^verbatim>\<open>namespace\<close> (lines 485 to 499)\<close>

text \<open>
  A step of the loop either completes with a value and the store it leaves, or raises a
  TypeError; the store at the moment of the raise is kept, since the writes made before
  it stay.
\<close>

datatype 'a result = Done 'a heap | Raised heap

text \<open>
  Lines 494 to 496. The assignment target \<^verbatim>\<open>verified[parts[count]]\<close> is read again for
  every key, as the source writes it.
\<close>

fun merge :: "heap \<Rightarrow> val \<Rightarrow> string \<Rightarrow> val \<Rightarrow> string list \<Rightarrow> unit result" where
  "merge h verified part literal [] = Done () h"
| "merge h verified part literal (key # keys) =
     (case get_prop h verified part of
        None \<Rightarrow> Raised h
      | Some target \<Rightarrow>
          (case get_prop h literal key of
             None \<Rightarrow> Raised h
           | Some v \<Rightarrow>
               (case put_prop h target key v of
                  None \<Rightarrow> Raised h
                | Some h' \<Rightarrow> merge h' verified part literal keys)))"

text \<open>
  One iteration per remaining segment; \<^verbatim>\<open>count === partsCount - 1\<close> holds exactly when
  no segment follows.
\<close>

fun walk :: "heap \<Rightarrow> val \<Rightarrow> val \<Rightarrow> string list \<Rightarrow> val result" where
  "walk h verified literal [] = Done verified h"
| "walk h verified literal (part # rest) =
     (case get_prop h verified part of
        None \<Rightarrow> Raised h
      | Some cur \<Rightarrow>
          (case (if cur = Undefined
                 then (if rest = []
                       then (case put_prop h verified part literal of
                               None \<Rightarrow> Raised h
                             | Some h' \<Rightarrow> Done () h')
                       else (case new_object h [] of
                               (a, h1) \<Rightarrow>
                                 (case put_prop h1 verified part (Ref a) of
                                    None \<Rightarrow> Raised h1
                                  | Some h' \<Rightarrow> Done () h')))
                 else if rest = []
                 then merge h verified part literal (own_keys h literal)
                 else Done () h) of
             Raised h' \<Rightarrow> Raised h'
           | Done u h' \<Rightarrow>
               (case get_prop h' verified part of
                  None \<Rightarrow> Raised h'
                | Some nxt \<Rightarrow> walk h' nxt literal rest)))"

subsection \<open>Extending the View (lines 501 to 508)\<close>

text \<open>
  Backbone's \<^verbatim>\<open>extend(protoProps)\<close> called on \<open>parent\<close>, for a \<open>protoProps\<close> without a
  \<^verbatim>\<open>constructor\<close> member: a new constructor function receives the parent's static
  members, a new prototype object receives the members of \<open>protoProps\<close>, and
  \<^verbatim>\<open>__super__\<close> records the parent's prototype.
\<close>

definition backbone_extend :: "heap \<Rightarrow> addr \<Rightarrow> addr \<Rightarrow> addr \<times> heap" where
  "backbone_extend h parent protoProps =
     (let child = length h;
          proto = Suc (length h);
          super = (case map_of (props (h ! parent)) ''prototype'' of
                     None \<Rightarrow> Undefined | Some v \<Rightarrow> v);
          statics = AList.update ''__super__'' super
                      (AList.update ''prototype'' (Ref proto) (props (h ! parent)));
          members = fold (\<lambda>(k, v). AList.update k v) (props (h ! protoProps))
                      [(''constructor'', Ref child)]
      in (child, h @ [\<lparr>props = statics, kind = Function\<rparr>, \<lparr>props = members, kind = Plain\<rparr>]))"

text \<open>
  What calling a value does: a TypeError for anything that is not a function, Backbone's
  class helper, or a function whose body is outside this development.
\<close>

datatype call = NotCallable | Foreign | Extend

fun callee :: "heap \<Rightarrow> val \<Rightarrow> call" where
  "callee h (Ref a) =
     (if a < length h
      then (case kind (h ! a) of
              Plain \<Rightarrow> NotCallable | Function \<Rightarrow> Foreign | BackboneExtend \<Rightarrow> Extend)
      else NotCallable)"
| "callee h _ = NotCallable"

text \<open>
  \<^verbatim>\<open>verified.View = verified.View.extend({config: {namespace: {...}}})\<close>. The member
  reads come first, then the argument literals are allocated, then the call is made; the
  three nested literals are allocated innermost first, which differs from the source's
  order only in the identities they receive. \<open>Left\<close> is the case in which control passes
  to a function outside this development.
\<close>

datatype step = Extended heap | Thrown heap | Left heap

definition extend_view :: "heap \<Rightarrow> val \<Rightarrow> string \<Rightarrow> step" where
  "extend_view h verified lit =
     (case get_prop h verified ''View'' of
        None \<Rightarrow> Thrown h
      | Some view \<Rightarrow>
          (case get_prop h view ''extend'' of
             None \<Rightarrow> Thrown h
           | Some f \<Rightarrow>
               (case new_object h [(''literal'', Prim (PStr lit)), (''object'', verified)] of
                  (n, h1) \<Rightarrow>
               (case new_object h1 [(''namespace'', Ref n)] of
                  (c, h2) \<Rightarrow>
               (case new_object h2 [(''config'', Ref c)] of
                  (pp, h3) \<Rightarrow>
               (case callee h3 f of
                  NotCallable \<Rightarrow> Thrown h3
                | Foreign \<Rightarrow> Left h3
                | Extend \<Rightarrow>
                    (case view of
                       Ref v \<Rightarrow>
                         (case backbone_extend h3 v pp of
                            (child, h4) \<Rightarrow>
                              (case put_prop h4 verified ''View'' (Ref child) of
                                 None \<Rightarrow> Thrown h4
                               | Some h5 \<Rightarrow> Extended h5))
                     | _ \<Rightarrow> Thrown h3)))))))"

text \<open>\<^verbatim>\<open>verified.View.prototype.config.namespace.literal\<close>, read at lines 511 and 532.\<close>

definition namespace_literal :: "heap \<Rightarrow> val \<Rightarrow> val option" where
  "namespace_literal h verified =
     (case get_prop h verified ''View'' of None \<Rightarrow> None | Some v \<Rightarrow>
     (case get_prop h v ''prototype'' of None \<Rightarrow> None | Some p \<Rightarrow>
     (case get_prop h p ''config'' of None \<Rightarrow> None | Some c \<Rightarrow>
     (case get_prop h c ''namespace'' of None \<Rightarrow> None | Some n \<Rightarrow>
        get_prop h n ''literal''))))"

subsection \<open>Registry, event pool and the two operations\<close>

type_synonym callback = nat

text \<open>
  \<open>registry\<close> is the closure variable of line 46; an entry \<^verbatim>\<open>{"object": verified}\<close> is
  kept as the value \<open>verified\<close>. \<open>handlers\<close> are the bindings jQuery holds, each with
  the pool object it was bound on, in binding order. \<open>fired\<close> logs every callback
  invocation with the name of the event it was given.
\<close>

record state =
  heap :: heap
  root :: addr
  registry :: "string \<rightharpoonup> val"
  handlers :: "(addr \<times> string \<times> callback) list"
  fired :: "(callback \<times> string) list"

text \<open>
  jQuery reads \<^verbatim>\<open>"type.ns1.ns2"\<close> as an event type with namespaces; a triggered event
  reaches a handler of the same type whose namespaces include all of its own.
\<close>

definition reaches :: "string \<Rightarrow> string \<Rightarrow> bool" where
  "reaches triggered bound =
     (hd (split_on (CHR ''.'') triggered) = hd (split_on (CHR ''.'') bound)
      \<and> set (tl (split_on (CHR ''.'') triggered)) \<subseteq> set (tl (split_on (CHR ''.'') bound)))"

definition trigger :: "state \<Rightarrow> val \<Rightarrow> string \<Rightarrow> state" where
  \<comment> \<open>\<^verbatim>\<open>$(eventPool).trigger(name)\<close>\<close>
  "trigger s pool name =
     s\<lparr>fired := fired s @
          map (\<lambda>(a, bound, cb). (cb, name))
            (filter (\<lambda>(a, bound, cb). pool = Ref a \<and> reaches name bound) (handlers s))\<rparr>"

text \<open>
  A call of \<^verbatim>\<open>namespace\<close> returns the terminal container, raises, or escapes into a
  foreign function; each outcome carries the state it leaves.
\<close>

datatype outcome = Return val state | Throw state | Escape state

definition namespace :: "state \<Rightarrow> string \<Rightarrow> addr option \<Rightarrow> outcome" where
  "namespace s ns lit =
     (case get_prop (heap s) (Ref (root s)) ''pool'' of
        None \<Rightarrow> Throw s
      | Some eventPool \<Rightarrow>
          (case (case lit of
                   Some a \<Rightarrow> (Ref a, heap s)
                 | None \<Rightarrow> (case new_object (heap s) [] of (a, h) \<Rightarrow> (Ref a, h))) of
             (literal, h0) \<Rightarrow>
          (case walk h0 (Ref (root s)) literal (path_parts ns) of
             Raised h \<Rightarrow> Throw (s\<lparr>heap := h\<rparr>)
           | Done verified h1 \<Rightarrow>
               (case extend_view h1 verified (full_name ns) of
                  Thrown h \<Rightarrow> Throw (s\<lparr>heap := h\<rparr>)
                | Left h \<Rightarrow> Escape (s\<lparr>heap := h\<rparr>)
                | Extended h2 \<Rightarrow>
                    (case namespace_literal h2 verified of
                       None \<Rightarrow> Throw (s\<lparr>heap := h2\<rparr>)
                     | Some l \<Rightarrow>
                         Return verified
                           (trigger
                              (s\<lparr>heap := h2, registry := (registry s)(to_string l \<mapsto> verified)\<rparr>)
                              eventPool (''ready.'' @ to_string l)))))))"

definition ready :: "state \<Rightarrow> string \<Rightarrow> callback \<Rightarrow> state" where
  "ready s ns cb =
     (if registry s ns \<noteq> None
      then s\<lparr>fired := fired s @ [(cb, ''ready.'' @ ns)]\<rparr>
      else (case get_prop (heap s) (Ref (root s)) ''pool'' of
              Some (Ref a) \<Rightarrow> s\<lparr>handlers := handlers s @ [(a, ''ready.'' @ ns, cb)]\<rparr>
            | _ \<Rightarrow> s))"

subsection \<open>The module at load time (lines 16 to 607)\<close>

text \<open>
  The objects that exist when \<^verbatim>\<open>new Base("bloomberg")\<close> starts: Backbone's class helper,
  the prototypes of Backbone's three classes, the five base classes assigned to
  \<^verbatim>\<open>Base.prototype\<close> with their prototype objects, the event pool and the root object.
  Method members of the prototypes and of Backbone.Events are left out: \<^verbatim>\<open>namespace\<close>
  and \<^verbatim>\<open>ready\<close> never read them.
\<close>

definition plain :: "(string \<times> val) list \<Rightarrow> obj" where
  "plain kvs = \<lparr>props = kvs, kind = Plain\<rparr>"

definition func :: "(string \<times> val) list \<Rightarrow> obj" where
  "func kvs = \<lparr>props = kvs, kind = Function\<rparr>"

definition module_heap :: heap where
  "module_heap =
    [\<lparr>props = [], kind = BackboneExtend\<rparr>,
     plain [], plain [], plain [],
     plain [],
     plain [(''constructor'', Ref 6), (''config'', Ref 4), (''el'', Null)],
     func [(''extend'', Ref 0), (''prototype'', Ref 5), (''__super__'', Ref 1)],
     plain [(''constructor'', Ref 8)],
     func [(''extend'', Ref 0), (''prototype'', Ref 7), (''__super__'', Ref 2)],
     plain [(''constructor'', Ref 10)],
     func [(''extend'', Ref 0), (''prototype'', Ref 9), (''__super__'', Ref 2)],
     plain [(''constructor'', Ref 12), (''defaults'', Ref 13)],
     func [(''extend'', Ref 0), (''prototype'', Ref 11), (''__super__'', Ref 2)],
     plain [(''map'', Ref 14)], plain [],
     plain [(''constructor'', Ref 16)],
     func [(''extend'', Ref 0), (''prototype'', Ref 15), (''__super__'', Ref 3)],
     plain [],
     plain [],
     func [], func [],
     plain [(''pool'', Ref 17), (''Collection'', Ref 16), (''Config'', Ref 12),
            (''Model'', Ref 8), (''Templates'', Ref 10), (''View'', Ref 6),
            (''namespace'', Ref 19), (''ready'', Ref 20), (''views'', Ref 18)]]"

definition module_state :: state where
  "module_state =
     \<lparr>heap = module_heap, root = 21, registry = Map.empty, handlers = [], fired = []\<rparr>"

text \<open>The constructor \<^verbatim>\<open>Base\<close> ends with \<^verbatim>\<open>this.namespace("")\<close> (line 43).\<close>

definition boot :: outcome where
  "boot = namespace module_state [] None"

fun state_of :: "outcome \<Rightarrow> state" where
  "state_of (Return v s) = s"
| "state_of (Throw s) = s"
| "state_of (Escape s) = s"

definition loaded :: state where
  "loaded = state_of boot"

subsection \<open>Reading the tree\<close>

text \<open>
  \<open>resolve\<close> walks a path by plain property reads, as \<^verbatim>\<open>root.a.b.c\<close> does, and
  \<open>bases\<close> lists the containers such a walk reads from. \<open>trail\<close> lists, before a
  registration, the containers its loop will pass through: the ones that exist along the
  path and, where the path ends early, the literal that becomes the terminal container.
\<close>

fun resolve :: "heap \<Rightarrow> val \<Rightarrow> string list \<Rightarrow> val option" where
  "resolve h v [] = Some v"
| "resolve h v (part # rest) =
     (case get_prop h v part of None \<Rightarrow> None | Some x \<Rightarrow> resolve h x rest)"

fun bases :: "heap \<Rightarrow> val \<Rightarrow> string list \<Rightarrow> val list" where
  "bases h v [] = []"
| "bases h v (part # rest) =
     v # (case get_prop h v part of None \<Rightarrow> [] | Some x \<Rightarrow> bases h x rest)"

fun trail :: "heap \<Rightarrow> val \<Rightarrow> val \<Rightarrow> string list \<Rightarrow> val list" where
  "trail h v literal [] = [v]"
| "trail h v literal (part # rest) =
     v # (case get_prop h v part of
            None \<Rightarrow> []
          | Some cur \<Rightarrow> if cur = Undefined then [literal] else trail h cur literal rest)"

fun alive :: "heap \<Rightarrow> val \<Rightarrow> bool" where
  "alive h (Ref a) = (a < length h)"
| "alive h _ = True"

subsection \<open>The descent as the specification words it\<close>

text \<open>
  The specification's wording of the descent through the segments before the last
  (section 4.1): for each segment except the last, if the current container lacks that
  key, create an empty container there; descend. It is compared with the loop of the
  source in the section on intermediate containers.
\<close>

fun descend_spec :: "heap \<Rightarrow> val \<Rightarrow> string list \<Rightarrow> val result" where
  "descend_spec h container [] = Done container h"
| "descend_spec h container (segment # rest) =
     (case get_prop h container segment of
        None \<Rightarrow> Raised h
      | Some child \<Rightarrow>
          if child = Undefined
          then (case new_object h [] of
                  (a, h1) \<Rightarrow>
                    (case put_prop h1 container segment (Ref a) of
                       None \<Rightarrow> Raised h1
                     | Some h2 \<Rightarrow> descend_spec h2 (Ref a) rest))
          else descend_spec h child rest)"

subsection \<open>Stores named in the proofs\<close>

text \<open>The store after a successful View extension of the object at \<open>q\<close> whose View is at \<open>v\<close>.\<close>

definition extended :: "heap \<Rightarrow> addr \<Rightarrow> addr \<Rightarrow> string \<Rightarrow> heap" where
  "extended h q v fq =
     (h @ [plain [(''literal'', Prim (PStr fq)), (''object'', Ref q)],
           plain [(''namespace'', Ref (length h))],
           plain [(''config'', Ref (Suc (length h)))],
           func (AList.update ''__super__''
                   (case map_of (props (h ! v)) ''prototype'' of None \<Rightarrow> Undefined | Some x \<Rightarrow> x)
                   (AList.update ''prototype'' (Ref (Suc (Suc (Suc (Suc (length h)))))) (props (h ! v)))),
           plain [(''constructor'', Ref (Suc (Suc (Suc (length h))))), (''config'', Ref (Suc (length h)))]])
     [q := (h ! q)\<lparr>props := AList.update ''View'' (Ref (Suc (Suc (Suc (length h))))) (props (h ! q))\<rparr>]"

text \<open>
  The store after one step of the descent that creates a container for \<open>part\<close> in the
  object at \<open>p\<close>.
\<close>

definition vivified :: "heap \<Rightarrow> addr \<Rightarrow> string \<Rightarrow> heap" where
  "vivified h p part =
     (h @ [\<lparr>props = [], kind = Plain\<rparr>])
       [p := (h ! p)\<lparr>props := AList.update part (Ref (length h)) (props (h ! p))\<rparr>]"

fun heap_of :: "'a result \<Rightarrow> heap" where
  "heap_of (Done v h) = h"
| "heap_of (Raised h) = h"

subsection \<open>Concrete runs\<close>

text \<open>
  The states below are reached from the loaded module by the calls named with them;
  object literals of the caller are allocated before the call that receives them.
\<close>

definition literal_in :: "state \<Rightarrow> (string \<times> val) list \<Rightarrow> addr \<times> state" where
  \<comment> \<open>the caller evaluates an object literal before the call\<close>
  "literal_in s kvs = (case new_object (heap s) kvs of (a, h) \<Rightarrow> (a, s\<lparr>heap := h\<rparr>))"

definition caller_extend :: "state \<Rightarrow> addr \<Rightarrow> addr \<times> state" where
  \<comment> \<open>the caller evaluates \<^verbatim>\<open>X.extend({})\<close> for a Backbone class \<open>X\<close>\<close>
  "caller_extend s x =
     (case new_object (heap s) [] of
        (pp, h) \<Rightarrow> (case backbone_extend h x pp of (child, h') \<Rightarrow> (child, s\<lparr>heap := h'\<rparr>)))"



definition module_call :: state where
  \<comment> \<open>before \<^verbatim>\<open>bloomberg.namespace("module", {"Model": bloomberg.Model})\<close>\<close>
  "module_call = snd (literal_in loaded [(''Model'', Ref 8)])"

definition module_thrown :: state where
  "module_thrown = state_of (namespace module_call ''module'' (Some 28))"

definition root_call :: state where
  "root_call = snd (literal_in loaded [(''x'', Prim (PNum 1))])"

definition root_done :: state where
  "root_done = state_of (namespace root_call [] (Some 28))"

definition view_call :: state where
  \<comment> \<open>before \<^verbatim>\<open>bloomberg.namespace("", {View: bloomberg.View.extend({})})\<close>\<close>
  "view_call = snd (literal_in (snd (caller_extend loaded 26)) [(''View'', Ref 29)])"

definition view_done :: state where
  "view_done = state_of (namespace view_call [] (Some 31))"

definition shop_call :: state where
  \<comment> \<open>before \<^verbatim>\<open>bloomberg.namespace("shop.cart", {View: bloomberg.View, total: 0})\<close>\<close>
  "shop_call = snd (literal_in loaded [(''View'', Ref 26), (''total'', Prim (PNum 0))])"

definition shop_done :: state where
  "shop_done = state_of (namespace shop_call ''shop.cart'' (Some 28))"




definition loop_first :: state where
  \<comment> \<open>after \<^verbatim>\<open>bloomberg.namespace("loop", bloomberg)\<close>\<close>
  "loop_first = state_of (namespace loaded ''loop'' (Some 21))"

definition loop_call :: state where
  \<comment> \<open>before \<^verbatim>\<open>bloomberg.namespace("loop", {loop: {View: bloomberg.View}})\<close>\<close>
  "loop_call =
     snd (literal_in (snd (literal_in loop_first [(''View'', Ref 31)])) [(''loop'', Ref 33)])"

definition loop_done :: state where
  "loop_done = state_of (namespace loop_call ''loop'' (Some 34))"

definition usd_call :: state where
  \<comment> \<open>before the second call, \<^verbatim>\<open>bloomberg.namespace("shop.cart", {currency: "USD"})\<close>\<close>
  "usd_call = snd (literal_in shop_done [(''currency'', Prim (PStr ''USD''))])"

definition usd_done :: state where
  "usd_done = state_of (namespace usd_call ''shop.cart'' (Some 35))"

definition over_call :: state where
  \<comment> \<open>before the second call,
     \<^verbatim>\<open>bloomberg.namespace("shop.cart", {View: bloomberg.View, total: 5})\<close>\<close>
  "over_call = snd (literal_in shop_done [(''View'', Ref 26), (''total'', Prim (PNum 5))])"

definition over_done :: state where
  "over_done = state_of (namespace over_call ''shop.cart'' (Some 35))"

definition extra_call :: state where
  \<comment> \<open>after the registration of \<^verbatim>\<open>shop.cart\<close>, before
     \<^verbatim>\<open>bloomberg.namespace("shop.extra.items", {View: bloomberg.View})\<close>\<close>
  "extra_call = snd (literal_in shop_done [(''View'', Ref 26)])"

definition extra_done :: state where
  "extra_done = state_of (namespace extra_call ''shop.extra.items'' (Some 35))"

definition extra_mid :: heap where
  "extra_mid = heap_of (descend_spec (heap extra_call) (Ref 21) [''shop'', ''extra''])"

section \<open>Properties of the store operations\<close>

lemma get_prop_Some_cases:
  "get_prop h v k = Some x \<Longrightarrow> (\<exists>p. v = Prim p) \<or> (\<exists>a. v = Ref a \<and> a < length h)"
  by (cases v) (auto split: if_splits)

lemma put_prop_Some:
  "put_prop h v k x = Some h' \<Longrightarrow>
     \<exists>a. v = Ref a \<and> a < length h \<and> h' = h[a := (h ! a)\<lparr>props := AList.update k x (props (h ! a))\<rparr>]"
  by (cases v) (auto split: if_splits)

lemma put_prop_length: "put_prop h v k x = Some h' \<Longrightarrow> length h' = length h"
  by (auto dest: put_prop_Some)

lemma get_prop_update:
  "a < length h \<Longrightarrow>
   get_prop (h[a := (h ! a)\<lparr>props := AList.update k x (props (h ! a))\<rparr>]) v k' =
     (if v = Ref a \<and> k' = k then Some x else get_prop h v k')"
  by (cases v) (auto simp: update_conv' nth_list_update)

lemma put_get_same: "put_prop h v k x = Some h' \<Longrightarrow> get_prop h' v k = Some x"
  by (auto dest!: put_prop_Some simp: get_prop_update simp del: get_prop.simps)

lemma get_prop_append:
  "get_prop h v k = Some x \<Longrightarrow> get_prop (h @ ex) v k = Some x"
  by (cases v) (auto simp: nth_append split: if_splits)

lemma get_prop_same_obj:
  "length h' = length h \<Longrightarrow> (\<And>a. v = Ref a \<Longrightarrow> h' ! a = h ! a) \<Longrightarrow> get_prop h' v k = get_prop h v k"
  by (cases v) auto

lemma get_prop_frame:
  "length h \<le> length h' \<Longrightarrow> get_prop h v k = Some x \<Longrightarrow> (\<And>a. v = Ref a \<Longrightarrow> h' ! a = h ! a)
     \<Longrightarrow> get_prop h' v k = Some x"
  by (cases v) (auto split: if_splits)

lemma resolve_append: "resolve h v ps = Some c \<Longrightarrow> resolve (h @ ex) v ps = Some c"
proof (induction ps arbitrary: v)
  case Nil
  then show ?case by simp
next
  case (Cons part rest)
  then obtain x where x: "get_prop h v part = Some x" and r: "resolve h x rest = Some c"
    by (auto split: option.splits)
  from get_prop_append[OF x] Cons.IH[OF r] show ?case by simp
qed

lemma resolve_defined_step:
  assumes "get_prop h w part = Some y" "resolve h y rest = Some x" "x \<noteq> Undefined"
  shows "y \<noteq> Undefined \<and> (\<exists>a. w = Ref a \<and> a < length h)"
proof -
  have y: "y \<noteq> Undefined"
  proof
    assume "y = Undefined"
    with assms(2,3) show False by (cases rest) auto
  qed
  with assms(1) show ?thesis by (cases w) (auto split: if_splits)
qed

lemma trail_nonempty: "trail h v l ps \<noteq> []"
  by (cases ps) auto

lemma trail_resolve:
  "resolve h v ps = Some c \<Longrightarrow> c \<noteq> Undefined \<Longrightarrow> last (trail h v l ps) = c"
proof (induction ps arbitrary: v)
  case Nil
  then show ?case by simp
next
  case (Cons part rest)
  from Cons.prems(1) obtain cur where cur: "get_prop h v part = Some cur"
    and r: "resolve h cur rest = Some c" by (auto split: option.splits)
  have "cur \<noteq> Undefined"
  proof
    assume "cur = Undefined"
    with r Cons.prems(2) show False by (cases rest) auto
  qed
  with cur Cons.IH[OF r Cons.prems(2)] trail_nonempty[of h cur l rest] show ?case by simp
qed

lemma split_on_nonempty: "split_on c s \<noteq> []"
  by (induction s) (auto split: list.splits)

lemma path_parts_nonempty: "ns \<noteq> [] \<Longrightarrow> path_parts ns \<noteq> []"
  by (simp add: path_parts_def split_on_nonempty)


section \<open>The merge loop and the walk\<close>

lemma merge_Done:
  assumes "merge h P s l keys = Done u h'" "get_prop h P s = Some (Ref t)" "P \<noteq> Ref t"
  shows "length h' = length h \<and> (\<forall>b. b \<noteq> t \<longrightarrow> h' ! b = h ! b) \<and> kind (h' ! t) = kind (h ! t)
     \<and> (\<forall>k. get_prop h' (Ref t) k = (if k \<in> set keys then get_prop h l k else get_prop h (Ref t) k))
     \<and> (\<forall>k. get_prop h' l k = get_prop h l k)
     \<and> set (own_keys h' (Ref t)) = set (own_keys h (Ref t)) \<union> (if t < length h then set keys else {})
     \<and> (keys \<noteq> [] \<longrightarrow> t < length h)"
  using assms
proof (induction keys arbitrary: h)
  case Nil
  then show ?case by simp
next
  case (Cons key keys)
  from Cons.prems obtain x h1 where x: "get_prop h l key = Some x"
    and p: "put_prop h (Ref t) key x = Some h1"
    and m: "merge h1 P s l keys = Done u h'"
    by (auto split: option.splits)
  from p have t: "t < length h"
    and h1: "h1 = h[t := (h ! t)\<lparr>props := AList.update key x (props (h ! t))\<rparr>]"
    by (auto split: if_splits)
  have g1: "\<And>v k. get_prop h1 v k = (if v = Ref t \<and> k = key then Some x else get_prop h v k)"
    unfolding h1 using t by (rule get_prop_update)
  have P1: "get_prop h1 P s = Some (Ref t)"
    using Cons.prems(2,3) by (simp add: g1)
  note IH = Cons.IH[OF m P1 Cons.prems(3)]
  have l1: "\<And>k. get_prop h1 l k = get_prop h l k"
    using x by (auto simp: g1)
  have len: "length h1 = length h" by (simp add: h1)
  have oth: "\<And>b. b \<noteq> t \<Longrightarrow> h1 ! b = h ! b" by (simp add: h1)
  have kd: "kind (h1 ! t) = kind (h ! t)" using t by (simp add: h1)
  have ks: "set (own_keys h1 (Ref t)) = insert key (set (own_keys h (Ref t)))"
    using t by (simp add: h1 dom_update)
  have a: "length h' = length h" using IH len by simp
  have b: "\<forall>b. b \<noteq> t \<longrightarrow> h' ! b = h ! b" using IH oth by simp
  have c: "kind (h' ! t) = kind (h ! t)" using IH kd by simp
  have d: "\<forall>k. get_prop h' (Ref t) k
             = (if k \<in> set (key # keys) then get_prop h l k else get_prop h (Ref t) k)"
  proof
    fix k
    from IH have "get_prop h' (Ref t) k
        = (if k \<in> set keys then get_prop h1 l k else get_prop h1 (Ref t) k)" by blast
    then show "get_prop h' (Ref t) k
        = (if k \<in> set (key # keys) then get_prop h l k else get_prop h (Ref t) k)"
      using x by (auto simp add: l1 g1 simp del: get_prop.simps)
  qed
  have e: "\<forall>k. get_prop h' l k = get_prop h l k" using IH l1 by simp
  have f: "set (own_keys h' (Ref t))
             = set (own_keys h (Ref t)) \<union> (if t < length h then set (key # keys) else {})"
    using IH ks t len by (simp del: own_keys.simps)
  show ?case using a b c d e f t by blast
qed

lemma merge_nonref:
  assumes "merge h P s l keys = Done u h'" "get_prop h P s = Some cur" "\<forall>t. cur \<noteq> Ref t"
  shows "keys = [] \<and> h' = h"
  using assms by (cases keys; cases cur) (auto split: option.splits)

lemma merge_length: "merge h P s l keys = Done u h' \<Longrightarrow> length h' = length h"
proof (induction keys arbitrary: h)
  case Nil
  then show ?case by simp
next
  case (Cons key keys)
  from Cons.prems obtain t x h1 where "put_prop h t key x = Some h1"
    and m: "merge h1 P s l keys = Done u h'"
    by (auto split: option.splits)
  then have "length h1 = length h" by (auto dest: put_prop_Some)
  with Cons.IH[OF m] show ?case by simp
qed

lemma walk_spec:
  assumes "walk h v l ps = Done c h'" "distinct (trail h v l ps)" "alive h l"
  shows "length h \<le> length h'
       \<and> (\<forall>a < length h. Ref a \<notin> set (trail h v l ps) \<longrightarrow> h' ! a = h ! a)
       \<and> resolve h' v ps = Some c
       \<and> c = last (trail h v l ps)
       \<and> c \<notin> set (bases h' v ps)
       \<and> (ps \<noteq> [] \<longrightarrow> (\<forall>k \<in> set (own_keys h l). get_prop h' c k = get_prop h l k))
       \<and> (ps \<noteq> [] \<longrightarrow> (\<forall>k. k \<notin> set (own_keys h l) \<longrightarrow> get_prop h' c k = get_prop h c k))"
  using assms
proof (induction ps arbitrary: h v)
  case Nil
  then show ?case by simp
next
  case (Cons part rest)
  from Cons.prems(1) obtain cur where cur: "get_prop h v part = Some cur"
    by (auto split: option.splits)
  then consider (obj) p where "v = Ref p" "p < length h" | (prim) pr where "v = Prim pr"
    using get_prop_Some_cases by blast
  then show ?case
  proof cases
    case prim
    with Cons.prems(1) cur show ?thesis
      by (auto simp: new_object_def alloc_def split: if_splits)
  next
    case obj
    note v = obj
    show ?thesis
    proof (cases "cur = Undefined")
      case True
      note undef = True
      show ?thesis
      proof (cases "rest = []")
        case True
        define h1 where "h1 = h[p := (h ! p)\<lparr>props := AList.update part l (props (h ! p))\<rparr>]"
        have put: "put_prop h v part l = Some h1" using v by (simp add: h1_def)
        have g1: "\<And>w k. get_prop h1 w k = (if w = Ref p \<and> k = part then Some l else get_prop h w k)"
          unfolding h1_def using v(2) by (rule get_prop_update)
        from Cons.prems(1) cur undef True put have res: "c = l" "h' = h1"
          by (auto simp: g1 v simp del: get_prop.simps put_prop.simps)
        from Cons.prems(2) cur undef True have ne: "v \<noteq> l" by simp
        have tr: "trail h v l (part # rest) = [v, l]" using cur undef by simp
        have len: "length h1 = length h" by (simp add: h1_def)
        have oth: "\<And>b. b \<noteq> p \<Longrightarrow> h1 ! b = h ! b" by (simp add: h1_def)
        have ok: "own_keys h1 l = own_keys h l" using ne v oth len by (cases l) auto
        show ?thesis
          unfolding res tr using ne v True
          by (auto simp: g1 len oth simp del: get_prop.simps own_keys.simps)
      next
        case False
        note more = False
        define a where "a = length h"
        define h1 where "h1 = h @ [\<lparr>props = [], kind = Plain\<rparr>]"
        define h2 where "h2 = h1[p := (h1 ! p)\<lparr>props := AList.update part (Ref a) (props (h1 ! p))\<rparr>]"
        have p1: "p < length h1" using v by (simp add: h1_def)
        have g2: "\<And>w k. get_prop h2 w k = (if w = Ref p \<and> k = part then Some (Ref a) else get_prop h1 w k)"
          unfolding h2_def using p1 by (rule get_prop_update)
        have len2: "length h2 = Suc (length h)" by (simp add: h2_def h1_def)
        have oth2: "\<And>b. b < length h \<Longrightarrow> b \<noteq> p \<Longrightarrow> h2 ! b = h ! b"
          by (simp add: h2_def h1_def nth_append)
        have fresh: "h2 ! a = \<lparr>props = [], kind = Plain\<rparr>"
          using v by (simp add: h2_def h1_def a_def nth_append)
        have put: "put_prop h1 (Ref p) part (Ref a) = Some h2" using p1 by (simp add: h2_def)
        have no: "new_object h [] = (a, h1)" by (simp add: new_object_def alloc_def a_def h1_def)
        from Cons.prems(1) cur undef more
        have w: "walk h2 (Ref a) l rest = Done c h'"
          unfolding v(1) by (simp add: put no g2 del: get_prop.simps put_prop.simps)
        from Cons.prems(2) cur undef have ne: "v \<noteq> l" by simp
        have tr: "trail h v l (part # rest) = [v, l]" using cur undef by simp
        have la: "l \<noteq> Ref a" using Cons.prems(3) by (cases l) (auto simp: a_def)
        have tr2: "trail h2 (Ref a) l rest = [Ref a, l]"
          using more fresh len2 by (cases rest) (auto simp: a_def)
        have d2: "distinct (trail h2 (Ref a) l rest)" using la by (simp add: tr2)
        have al2: "alive h2 l" using Cons.prems(3) len2 by (cases l) auto
        note IH = Cons.IH[OF w d2 al2]
        have cl: "c = l" using IH by (simp add: tr2)
        have lsame: "\<And>q. l = Ref q \<Longrightarrow> h2 ! q = h ! q"
          using Cons.prems(3) ne v oth2 by auto
        have gl: "\<And>k. get_prop h2 l k = get_prop h l k"
          using Cons.prems(3) lsame len2 by (cases l) auto
        have ok: "own_keys h2 l = own_keys h l"
          using Cons.prems(3) lsame len2 by (cases l) auto
        have pa: "p \<noteq> a" using v by (simp add: a_def)
        have hp: "h' ! p = h2 ! p"
          using IH ne v len2 pa by (auto simp: tr2)
        have gv: "get_prop h' v part = Some (Ref a)"
        proof -
          have g: "get_prop h2 v part = Some (Ref a)" using v by (simp add: g2 del: get_prop.simps)
          have le: "length h2 \<le> length h'" using IH by simp
          show ?thesis by (rule get_prop_frame[OF le g]) (use hp v in simp)
        qed
        have c1: "length h \<le> length h'" using IH len2 by simp
        have c2: "\<forall>b < length h. Ref b \<notin> set (trail h v l (part # rest)) \<longrightarrow> h' ! b = h ! b"
        proof (intro allI impI)
          fix b assume b: "b < length h" and nb: "Ref b \<notin> set (trail h v l (part # rest))"
          from nb have "Ref b \<noteq> v" "Ref b \<noteq> l" unfolding tr by simp_all
          with b have "b \<noteq> p" "l \<noteq> Ref b" "b \<noteq> a" using v by (auto simp: a_def)
          then have "h' ! b = h2 ! b" using IH b len2 by (auto simp: tr2)
          then show "h' ! b = h ! b" using oth2 b \<open>b \<noteq> p\<close> by simp
        qed
        have c3: "resolve h' v (part # rest) = Some c" using gv IH by simp
        have c4: "c = last (trail h v l (part # rest))" unfolding tr using cl by simp
        have c5: "c \<notin> set (bases h' v (part # rest))" using gv IH cl ne by simp
        from IH more have i6: "\<forall>k \<in> set (own_keys h2 l). get_prop h' c k = get_prop h2 l k"
          and i7: "\<forall>k. k \<notin> set (own_keys h2 l) \<longrightarrow> get_prop h' c k = get_prop h2 c k"
          by blast+
        have c6: "\<forall>k \<in> set (own_keys h l). get_prop h' c k = get_prop h l k"
          using i6 unfolding ok gl .
        have c7: "\<forall>k. k \<notin> set (own_keys h l) \<longrightarrow> get_prop h' c k = get_prop h c k"
          using i7 unfolding ok cl gl .
        show ?thesis using c1 c2 c3 c4 c5 c6 c7 by blast
      qed
    next
      case False
      note defd = False
      show ?thesis
      proof (cases "rest = []")
        case True
        from Cons.prems(1) cur defd True obtain u h1 nxt where
          m: "merge h v part l (own_keys h l) = Done u h1"
          and n: "get_prop h1 v part = Some nxt" and res: "c = nxt" "h' = h1"
          by (auto split: result.splits option.splits)
        have tr: "trail h v l (part # rest) = [v, cur]" using cur defd True by simp
        from Cons.prems(2) have ne: "v \<noteq> cur" unfolding tr by simp
        show ?thesis
        proof (cases "\<exists>t. cur = Ref t")
          case True
          then obtain t where t: "cur = Ref t" by blast
          note M = merge_Done[OF m cur[unfolded t] ne[unfolded t]]
          have pt: "p \<noteq> t" using ne v t by simp
          have "get_prop h1 v part = get_prop h v part"
            by (rule get_prop_same_obj) (use M pt v in auto)
          with n cur have cc: "c = Ref t" using res t by simp
          have c3: "resolve h' v (part # rest) = Some c"
            using n res \<open>rest = []\<close> by simp
          have c5: "c \<notin> set (bases h' v (part # rest))"
            using n res \<open>rest = []\<close> cc ne t by simp
          have c2: "\<forall>b < length h. Ref b \<notin> set (trail h v l (part # rest)) \<longrightarrow> h' ! b = h ! b"
            unfolding tr using M res t by simp
          have c4: "c = last (trail h v l (part # rest))" unfolding tr using cc t by simp
          from M have m4: "\<forall>k. get_prop h1 (Ref t) k
              = (if k \<in> set (own_keys h l) then get_prop h l k else get_prop h (Ref t) k)"
            by blast
          have c6: "\<forall>k \<in> set (own_keys h l). get_prop h' c k = get_prop h l k"
            unfolding cc res using m4 by (simp del: get_prop.simps own_keys.simps)
          have c7: "\<forall>k. k \<notin> set (own_keys h l) \<longrightarrow> get_prop h' c k = get_prop h c k"
            unfolding cc res using m4 by (simp del: get_prop.simps own_keys.simps)
          have c1: "length h \<le> length h'" using M res by simp
          show ?thesis using c1 c2 c3 c4 c5 c6 c7 by blast
        next
          case False
          then have nr: "\<forall>t. cur \<noteq> Ref t" by blast
          from merge_nonref[OF m cur nr] have e: "own_keys h l = []" "h1 = h" by simp_all
          from n cur e res have cc: "c = cur" by simp
          have c3: "resolve h' v (part # rest) = Some c"
            using n res \<open>rest = []\<close> by simp
          have c5: "c \<notin> set (bases h' v (part # rest))"
            using n res \<open>rest = []\<close> cc ne by simp
          have c4: "c = last (trail h v l (part # rest))" unfolding tr using cc by simp
          have c7: "\<forall>k. get_prop h' c k = get_prop h c k" using res e by simp
          show ?thesis using c3 c4 c5 c7 res e by simp
        qed
      next
        case False
        note more = False
        from Cons.prems(1) cur defd more have w: "walk h cur l rest = Done c h'"
          by simp
        have tr: "trail h v l (part # rest) = v # trail h cur l rest" using cur defd by simp
        from Cons.prems(2) have d: "distinct (trail h cur l rest)"
          and nv: "v \<notin> set (trail h cur l rest)" unfolding tr by simp_all
        note IH = Cons.IH[OF w d Cons.prems(3)]
        from IH have i1: "length h \<le> length h'"
          and i2: "\<forall>a < length h. Ref a \<notin> set (trail h cur l rest) \<longrightarrow> h' ! a = h ! a"
          and i3: "resolve h' cur rest = Some c"
          and i4: "c = last (trail h cur l rest)"
          and i5: "c \<notin> set (bases h' cur rest)"
          by blast+
        from IH more have i6: "\<forall>k \<in> set (own_keys h l). get_prop h' c k = get_prop h l k"
          and i7: "\<forall>k. k \<notin> set (own_keys h l) \<longrightarrow> get_prop h' c k = get_prop h c k"
          by blast+
        have hp: "h' ! p = h ! p" using i2 nv v by simp
        have gv: "get_prop h' v part = Some cur"
          by (rule get_prop_frame[OF i1 cur]) (use hp v in simp)
        have c2: "\<forall>b < length h. Ref b \<notin> set (trail h v l (part # rest)) \<longrightarrow> h' ! b = h ! b"
          unfolding tr using i2 by simp
        have c3: "resolve h' v (part # rest) = Some c" using gv i3 by simp
        have c4: "c = last (trail h v l (part # rest))"
          unfolding tr using i4 trail_nonempty by simp
        have "c \<in> set (trail h cur l rest)" unfolding i4 using trail_nonempty by simp
        with nv have "c \<noteq> v" by blast
        then have c5: "c \<notin> set (bases h' v (part # rest))" using gv i5 by simp
        show ?thesis using i1 c2 c3 c4 c5 i6 i7 by blast
      qed
    qed
  qed
qed

lemma walk_length: "walk h v l ps = Done c h' \<Longrightarrow> length h \<le> length h'"
proof (induction ps arbitrary: h v)
  case Nil
  then show ?case by simp
next
  case (Cons part rest)
  from Cons.prems show ?case
    by (auto simp: new_object_def alloc_def split: option.splits if_splits result.splits
             dest!: put_prop_length merge_length Cons.IH)
qed


section \<open>The descent\<close>

lemma vivified_length: "length (vivified h p part) = Suc (length h)"
  by (simp add: vivified_def)

lemma vivified_get:
  "p < length h \<Longrightarrow> get_prop (vivified h p part) w k =
     (if w = Ref p \<and> k = part then Some (Ref (length h))
      else if w = Ref (length h) then Some Undefined else get_prop h w k)"
  by (cases w) (auto simp: vivified_def nth_append update_conv' nth_list_update)

lemma vivified_kind:
  "p < length h \<Longrightarrow> a \<le> length h \<Longrightarrow>
     kind (vivified h p part ! a) = (if a = length h then Plain else kind (h ! a))"
  by (auto simp: vivified_def nth_append nth_list_update)

lemma descend_step:
  assumes "descend_spec h v (part # rest) = Done P h1"
  shows "(\<exists>cur p. v = Ref p \<and> p < length h \<and> get_prop h v part = Some cur \<and> cur \<noteq> Undefined
              \<and> descend_spec h cur rest = Done P h1)
       \<or> (\<exists>p. v = Ref p \<and> p < length h \<and> get_prop h v part = Some Undefined
              \<and> descend_spec (vivified h p part) (Ref (length h)) rest = Done P h1)"
proof -
  from assms obtain cur where cur: "get_prop h v part = Some cur"
    by (auto split: option.splits)
  show ?thesis
  proof (cases v)
    case (Ref p)
    with cur have p: "p < length h" by (auto split: if_splits)
    show ?thesis
    proof (cases "cur = Undefined")
      case True
      with assms cur Ref p show ?thesis
        by (simp add: new_object_def alloc_def vivified_def nth_append)
    next
      case False
      with assms cur Ref p show ?thesis by simp
    qed
  qed (use assms cur in \<open>auto simp: new_object_def alloc_def\<close>)
qed

lemma walk_descend:
  "walk h v l (ps @ [z]) =
     (case descend_spec h v ps of Raised h' \<Rightarrow> Raised h' | Done P h1 \<Rightarrow> walk h1 P l [z])"
proof (induction ps arbitrary: h v)
  case Nil
  show ?case by simp
next
  case (Cons part rest)
  show ?case
  proof (cases "get_prop h v part")
    case None
    then show ?thesis by simp
  next
    case (Some cur)
    show ?thesis
    proof (cases "cur = Undefined")
      case False
      with Some Cons.IH[of h cur] show ?thesis by simp
    next
      case True
      show ?thesis
      proof (cases "put_prop (h @ [\<lparr>props = [], kind = Plain\<rparr>]) v part (Ref (length h))")
        case None
        with Some True show ?thesis by (simp add: new_object_def alloc_def)
      next
        case (Some h2)
        from put_get_same[OF Some] have "get_prop h2 v part = Some (Ref (length h))" .
        with Some \<open>get_prop h v part = Some cur\<close> True Cons.IH[of h2 "Ref (length h)"]
        show ?thesis by (simp add: new_object_def alloc_def)
      qed
    qed
  qed
qed

lemma descend_length: "descend_spec h v ps = Done P h1 \<Longrightarrow> length h \<le> length h1"
proof (induction ps arbitrary: h v)
  case Nil
  then show ?case by simp
next
  case (Cons part rest)
  from descend_step[OF Cons.prems] show ?case
    by (auto dest!: Cons.IH simp: vivified_length)
qed

lemma descend_keeps:
  "descend_spec h v ps = Done P h1 \<Longrightarrow> a < length h \<Longrightarrow> get_prop h (Ref a) k \<noteq> Some Undefined
     \<Longrightarrow> get_prop h1 (Ref a) k = get_prop h (Ref a) k"
proof (induction ps arbitrary: h v)
  case Nil
  then show ?case by simp
next
  case (Cons part rest)
  from descend_step[OF Cons.prems(1)] show ?case
  proof (elim disjE exE conjE)
    fix cur p assume "descend_spec h cur rest = Done P h1"
    from Cons.IH[OF this Cons.prems(2,3)] show ?thesis .
  next
    fix p assume p: "v = Ref p" "p < length h" "get_prop h v part = Some Undefined"
      and d: "descend_spec (vivified h p part) (Ref (length h)) rest = Done P h1"
    have g: "get_prop (vivified h p part) (Ref a) k = get_prop h (Ref a) k"
      using p Cons.prems(2,3) by (auto simp: vivified_get simp del: get_prop.simps)
    have "a < length (vivified h p part)" using Cons.prems(2) by (simp add: vivified_length)
    from Cons.IH[OF d this] g Cons.prems(3) show ?thesis by simp
  qed
qed

lemma descend_resolve: "descend_spec h v ps = Done P h1 \<Longrightarrow> resolve h1 v ps = Some P"
proof (induction ps arbitrary: h v)
  case Nil
  then show ?case by simp
next
  case (Cons part rest)
  from descend_step[OF Cons.prems(1)] show ?case
  proof (elim disjE exE conjE)
    fix cur p assume p: "v = Ref p" "p < length h" "get_prop h v part = Some cur" "cur \<noteq> Undefined"
      and d: "descend_spec h cur rest = Done P h1"
    from descend_keeps[OF d p(2), of part] p have "get_prop h1 v part = Some cur" by simp
    with Cons.IH[OF d] show ?thesis by simp
  next
    fix p assume p: "v = Ref p" "p < length h" "get_prop h v part = Some Undefined"
      and d: "descend_spec (vivified h p part) (Ref (length h)) rest = Done P h1"
    have g: "get_prop (vivified h p part) (Ref p) part = Some (Ref (length h))"
      using p by (simp add: vivified_get del: get_prop.simps)
    have "p < length (vivified h p part)" using p by (simp add: vivified_length)
    from descend_keeps[OF d this, of part] g p have "get_prop h1 v part = Some (Ref (length h))"
      by simp
    with Cons.IH[OF d] show ?thesis by simp
  qed
qed

lemma descend_resolve_keeps:
  "descend_spec h v ps = Done P h1 \<Longrightarrow> resolve h w q = Some x \<Longrightarrow> x \<noteq> Undefined
     \<Longrightarrow> resolve h1 w q = Some x"
proof (induction q arbitrary: w)
  case Nil
  then show ?case by simp
next
  case (Cons part rest)
  from Cons.prems(2) obtain y where y: "get_prop h w part = Some y"
    and r: "resolve h y rest = Some x" by (auto split: option.splits)
  from resolve_defined_step[OF y r Cons.prems(3)] obtain a where
    ny: "y \<noteq> Undefined" and a: "w = Ref a" "a < length h" by blast
  from descend_keeps[OF Cons.prems(1) a(2), of part] y ny a
  have "get_prop h1 w part = Some y" by simp
  with Cons.IH[OF Cons.prems(1) r Cons.prems(3)] show ?case by simp
qed

lemma descend_creates:
  "descend_spec h v ps = Done P h1 \<Longrightarrow> 0 < n \<Longrightarrow> n \<le> length ps
     \<Longrightarrow> resolve h v (take n ps) = None \<or> resolve h v (take n ps) = Some Undefined
     \<Longrightarrow> \<exists>b. resolve h1 v (take n ps) = Some (Ref b) \<and> length h \<le> b \<and> b < length h1"
proof (induction ps arbitrary: h v n)
  case Nil
  then show ?case by simp
next
  case (Cons part rest)
  from Cons.prems(2) obtain n' where n: "n = Suc n'" by (cases n) auto
  with Cons.prems(3) have n': "n' \<le> length rest" by simp
  from descend_step[OF Cons.prems(1)] show ?case
  proof (elim disjE exE conjE)
    fix cur p assume p: "v = Ref p" "p < length h" "get_prop h v part = Some cur" "cur \<noteq> Undefined"
      and d: "descend_spec h cur rest = Done P h1"
    from descend_keeps[OF d p(2), of part] p have g: "get_prop h1 v part = Some cur" by simp
    from Cons.prems(4) p(3,4) have pos: "0 < n'" and
      m: "resolve h cur (take n' rest) = None \<or> resolve h cur (take n' rest) = Some Undefined"
      unfolding n by (cases n'; simp)+
    from Cons.IH[OF d pos n' m] g show ?thesis unfolding n by simp
  next
    fix p assume p: "v = Ref p" "p < length h" "get_prop h v part = Some Undefined"
      and d: "descend_spec (vivified h p part) (Ref (length h)) rest = Done P h1"
    let ?hb = "vivified h p part"
    have gb: "get_prop ?hb (Ref p) part = Some (Ref (length h))"
      using p by (simp add: vivified_get del: get_prop.simps)
    have "p < length ?hb" using p by (simp add: vivified_length)
    from descend_keeps[OF d this, of part] gb p
    have g: "get_prop h1 v part = Some (Ref (length h))" by simp
    from descend_length[OF d] have len: "length h < length h1" by (simp add: vivified_length)
    show ?thesis
    proof (cases n')
      case 0
      with g len show ?thesis unfolding n by simp
    next
      case (Suc n'')
      then obtain r more where t: "take n' rest = r # more"
        using n' by (cases rest) auto
      have "get_prop ?hb (Ref (length h)) r = Some Undefined"
        using p by (simp add: vivified_get del: get_prop.simps)
      then have m: "resolve ?hb (Ref (length h)) (take n' rest) = None
                  \<or> resolve ?hb (Ref (length h)) (take n' rest) = Some Undefined"
        unfolding t by (cases more) (simp_all del: get_prop.simps(4))
      from Suc have pos: "0 < n'" by simp
      from Cons.IH[OF d pos n' m] obtain b where
        "resolve h1 (Ref (length h)) (take n' rest) = Some (Ref b)" "length ?hb \<le> b" "b < length h1"
        by blast
      with g show ?thesis unfolding n by (auto simp: vivified_length)
    qed
  qed
qed

lemma descend_delta:
  "descend_spec h v ps = Done P h1 \<Longrightarrow> a < length h \<Longrightarrow>
     kind (h1 ! a) = kind (h ! a)
     \<and> (get_prop h1 (Ref a) k = get_prop h (Ref a) k
        \<or> (\<exists>b. get_prop h1 (Ref a) k = Some (Ref b) \<and> length h \<le> b \<and> b < length h1))"
proof (induction ps arbitrary: h v)
  case Nil
  then show ?case by simp
next
  case (Cons part rest)
  from descend_step[OF Cons.prems(1)] show ?case
  proof (elim disjE exE conjE)
    fix cur p assume "descend_spec h cur rest = Done P h1"
    from Cons.IH[OF this Cons.prems(2)] show ?thesis .
  next
    fix p assume p: "v = Ref p" "p < length h" "get_prop h v part = Some Undefined"
      and d: "descend_spec (vivified h p part) (Ref (length h)) rest = Done P h1"
    let ?hb = "vivified h p part"
    have al: "a < length ?hb" using Cons.prems(2) by (simp add: vivified_length)
    from descend_length[OF d] have len: "length h < length h1" by (simp add: vivified_length)
    have kb: "kind (?hb ! a) = kind (h ! a)"
      using p Cons.prems(2) by (simp add: vivified_kind)
    have gb: "get_prop ?hb (Ref a) k = get_prop h (Ref a) k
              \<or> get_prop ?hb (Ref a) k = Some (Ref (length h))"
      using p Cons.prems(2) by (auto simp: vivified_get simp del: get_prop.simps)
    from Cons.IH[OF d al] have
      k1: "kind (h1 ! a) = kind (?hb ! a)"
      and g1: "get_prop h1 (Ref a) k = get_prop ?hb (Ref a) k
        \<or> (\<exists>b. get_prop h1 (Ref a) k = Some (Ref b) \<and> length ?hb \<le> b \<and> b < length h1)"
      by blast+
    from g1 gb len have "get_prop h1 (Ref a) k = get_prop h (Ref a) k
        \<or> (\<exists>b. get_prop h1 (Ref a) k = Some (Ref b) \<and> length h \<le> b \<and> b < length h1)"
      by (auto simp: vivified_length simp del: get_prop.simps)
    with k1 kb show ?thesis by simp
  qed
qed

lemma descend_new:
  "descend_spec h v ps = Done P h1 \<Longrightarrow> length h \<le> b \<Longrightarrow> b < length h1 \<Longrightarrow>
     kind (h1 ! b) = Plain
     \<and> (get_prop h1 (Ref b) k = Some Undefined
        \<or> (\<exists>b'. get_prop h1 (Ref b) k = Some (Ref b') \<and> length h \<le> b' \<and> b' < length h1))"
proof (induction ps arbitrary: h v)
  case Nil
  then show ?case by simp
next
  case (Cons part rest)
  from descend_step[OF Cons.prems(1)] show ?case
  proof (elim disjE exE conjE)
    fix cur p assume "descend_spec h cur rest = Done P h1"
    from Cons.IH[OF this Cons.prems(2,3)] show ?thesis .
  next
    fix p assume p: "v = Ref p" "p < length h" "get_prop h v part = Some Undefined"
      and d: "descend_spec (vivified h p part) (Ref (length h)) rest = Done P h1"
    let ?hb = "vivified h p part"
    show ?thesis
    proof (cases "b = length h")
      case False
      with Cons.prems(2) have "length ?hb \<le> b" by (simp add: vivified_length)
      from Cons.IH[OF d this Cons.prems(3)] show ?thesis
        by (auto simp: vivified_length simp del: get_prop.simps)
    next
      case True
      have al: "b < length ?hb" using True by (simp add: vivified_length)
      have kb: "kind (?hb ! b) = Plain" using p True by (simp add: vivified_kind)
      have gb: "get_prop ?hb (Ref b) k = Some Undefined"
        using p True by (simp add: vivified_get del: get_prop.simps)
      from descend_delta[OF d al, of k] kb gb show ?thesis
        by (auto simp: vivified_length simp del: get_prop.simps)
    qed
  qed
qed

section \<open>The View extension\<close>

lemma extend_view_Extended:
  assumes "extend_view h c fq = Extended h'"
  shows "\<exists>q v. c = Ref q \<and> q < length h \<and> v < length h
           \<and> map_of (props (h ! q)) ''View'' = Some (Ref v)
           \<and> h' = extended h q v fq"
proof -
  from assms obtain view f where v: "get_prop h c ''View'' = Some view"
    and f: "get_prop h view ''extend'' = Some f"
    by (auto simp: extend_view_def split: option.splits)
  from v obtain q where q: "c = Ref q" "q < length h"
    using assms f by (cases c) (auto simp: extend_view_def new_object_def alloc_def split: if_splits)
  from assms v f obtain a where a: "view = Ref a"
    by (cases view) (auto simp: extend_view_def new_object_def alloc_def split: call.splits)
  from f a have al: "a < length h" by (auto split: if_splits)
  from v q a have m: "map_of (props (h ! q)) ''View'' = Some (Ref a)"
    by (auto split: option.splits)
  from assms v f q a al have "h' = extended h q a fq"
    by (auto simp: extend_view_def new_object_def alloc_def backbone_extend_def plain_def func_def
          extended_def nth_append split: call.splits if_splits option.splits)
  with q al m show ?thesis by blast
qed

lemma extended_length: "length (extended h q v fq) = length h + 5"
  by (simp add: extended_def)

lemma extended_other: "b < length h \<Longrightarrow> b \<noteq> q \<Longrightarrow> extended h q v fq ! b = h ! b"
  by (simp add: extended_def nth_append)

lemma extended_get:
  "q < length h \<Longrightarrow> get_prop (extended h q v fq) (Ref q) k
     = (if k = ''View'' then Some (Ref (length h + 3)) else get_prop h (Ref q) k)"
  by (simp add: extended_def nth_append update_conv')

lemma extended_get_other:
  assumes "v \<noteq> Ref q" "get_prop h v k = Some x"
  shows "get_prop (extended h q w fq) v k = Some x"
proof (rule get_prop_frame[OF _ assms(2)])
  show "length h \<le> length (extended h q w fq)" by (simp add: extended_length)
next
  fix a assume "v = Ref a"
  with assms have "a < length h" "a \<noteq> q" by (auto split: if_splits)
  then show "extended h q w fq ! a = h ! a" by (rule extended_other)
qed

lemma extended_literal:
  "q < length h \<Longrightarrow> namespace_literal (extended h q v fq) (Ref q) = Some (Prim (PStr fq))"
  by (simp add: namespace_literal_def extended_def nth_append update_conv' plain_def func_def)

lemma extended_child:
  assumes "q < length h" "v < length h"
  shows "get_prop (extended h q v fq) (Ref (length h + 3)) ''prototype'' = Some (Ref (length h + 4))"
    and "get_prop (extended h q v fq) (Ref (length h + 3)) ''__super__'' = get_prop h (Ref v) ''prototype''"
    and "get_prop (extended h q v fq) (Ref (length h + 4)) ''config'' = Some (Ref (length h + 1))"
    and "get_prop (extended h q v fq) (Ref (length h + 1)) ''namespace'' = Some (Ref (length h))"
    and "get_prop (extended h q v fq) (Ref (length h)) ''literal'' = Some (Prim (PStr fq))"
    and "get_prop (extended h q v fq) (Ref (length h)) ''object'' = Some (Ref q)"
    and "kind (extended h q v fq ! (length h + 3)) = Function"
    and "get_prop (extended h q v fq) (Ref v) ''prototype'' = get_prop h (Ref v) ''prototype''"
  using assms
  by (simp_all add: extended_def nth_append update_conv' plain_def func_def nth_list_update)


lemma resolve_extended:
  "resolve h v ps = Some c \<Longrightarrow> Ref q \<notin> set (bases h v ps)
     \<Longrightarrow> resolve (extended h q w fq) v ps = Some c"
proof (induction ps arbitrary: v)
  case Nil
  then show ?case by simp
next
  case (Cons part rest)
  from Cons.prems(1) obtain x where x: "get_prop h v part = Some x"
    and r: "resolve h x rest = Some c" by (auto split: option.splits)
  from Cons.prems(2) x have ne: "v \<noteq> Ref q" and nb: "Ref q \<notin> set (bases h x rest)" by auto
  from extended_get_other[OF ne x] Cons.IH[OF r nb] show ?case by simp
qed

section \<open>The whole registration\<close>

lemma namespace_Return:
  assumes "namespace s ns lit = Return c s'"
  shows "\<exists>pool literal h0 h1 q v.
           get_prop (heap s) (Ref (root s)) ''pool'' = Some pool
         \<and> (case lit of Some a \<Rightarrow> literal = Ref a \<and> h0 = heap s
                        | None \<Rightarrow> literal = Ref (length (heap s)) \<and> h0 = heap s @ [plain []])
         \<and> walk h0 (Ref (root s)) literal (path_parts ns) = Done c h1
         \<and> c = Ref q \<and> q < length h1 \<and> v < length h1
         \<and> map_of (props (h1 ! q)) ''View'' = Some (Ref v)
         \<and> s' = trigger (s\<lparr>heap := extended h1 q v (full_name ns),
                            registry := (registry s)(full_name ns \<mapsto> c)\<rparr>)
                   pool (''ready.'' @ full_name ns)"
proof -
  from assms obtain pool literal h0 h1 h2 l where
    p: "get_prop (heap s) (Ref (root s)) ''pool'' = Some pool"
    and l0: "(case lit of Some a \<Rightarrow> literal = Ref a \<and> h0 = heap s
                        | None \<Rightarrow> literal = Ref (length (heap s)) \<and> h0 = heap s @ [plain []])"
    and w: "walk h0 (Ref (root s)) literal (path_parts ns) = Done c h1"
    and e: "extend_view h1 c (full_name ns) = Extended h2"
    and l: "namespace_literal h2 c = Some l"
    and s': "s' = trigger (s\<lparr>heap := h2, registry := (registry s)(to_string l \<mapsto> c)\<rparr>)
                   pool (''ready.'' @ to_string l)"
    by (cases lit)
       (auto simp: namespace_def new_object_def alloc_def plain_def
             split: option.splits result.splits step.splits)
  from extend_view_Extended[OF e] obtain q v where
    q: "c = Ref q" "q < length h1" "v < length h1" "map_of (props (h1 ! q)) ''View'' = Some (Ref v)"
    and h2: "h2 = extended h1 q v (full_name ns)" by blast
  from l have "l = Prim (PStr (full_name ns))"
    unfolding h2 q(1) using extended_literal[OF q(2)] by simp
  with p l0 w q h2 s' show ?thesis by auto
qed


lemma namespace_Return_fields:
  assumes "namespace s ns lit = Return c s'"
  shows "\<exists>pool literal h0 h1 q v.
           get_prop (heap s) (Ref (root s)) ''pool'' = Some pool
         \<and> (case lit of Some a \<Rightarrow> literal = Ref a \<and> h0 = heap s
                        | None \<Rightarrow> literal = Ref (length (heap s)) \<and> h0 = heap s @ [plain []])
         \<and> walk h0 (Ref (root s)) literal (path_parts ns) = Done c h1
         \<and> c = Ref q \<and> q < length h1 \<and> v < length h1
         \<and> get_prop h1 c ''View'' = Some (Ref v)
         \<and> heap s' = extended h1 q v (full_name ns)
         \<and> registry s' = (registry s)(full_name ns \<mapsto> c)
         \<and> handlers s' = handlers s \<and> root s' = root s
         \<and> fired s' = fired (trigger s pool (''ready.'' @ full_name ns))"
proof -
  from namespace_Return[OF assms] obtain pool literal h0 h1 q v where
    a: "get_prop (heap s) (Ref (root s)) ''pool'' = Some pool"
       "(case lit of Some a \<Rightarrow> literal = Ref a \<and> h0 = heap s
                        | None \<Rightarrow> literal = Ref (length (heap s)) \<and> h0 = heap s @ [plain []])"
       "walk h0 (Ref (root s)) literal (path_parts ns) = Done c h1"
       "c = Ref q" "q < length h1" "v < length h1"
       "map_of (props (h1 ! q)) ''View'' = Some (Ref v)"
       "s' = trigger (s\<lparr>heap := extended h1 q v (full_name ns),
                            registry := (registry s)(full_name ns \<mapsto> c)\<rparr>)
                   pool (''ready.'' @ full_name ns)"
    by blast
  from a(4,5,7) have gv: "get_prop h1 c ''View'' = Some (Ref v)" by simp
  have hs: "heap s' = extended h1 q v (full_name ns)"
    and rs: "registry s' = (registry s)(full_name ns \<mapsto> c)"
    and ks: "handlers s' = handlers s" and ro: "root s' = root s"
    and fs: "fired s' = fired (trigger s pool (''ready.'' @ full_name ns))"
    unfolding a(8) by (simp_all add: trigger_def)
  show ?thesis using a(1-6) gv hs rs ks ro fs by blast
qed




lemma registration_spec:
  assumes r: "namespace s p (Some m) = Return c s'"
    and ne: "p \<noteq> []"
    and al: "m < length (heap s)"
    and d: "distinct (trail (heap s) (Ref (root s)) (Ref m) (path_parts p))"
  shows "resolve (heap s') (Ref (root s)) (path_parts p) = Some c"
    and "c = last (trail (heap s) (Ref (root s)) (Ref m) (path_parts p))"
    and "\<forall>k \<in> set (own_keys (heap s) (Ref m)). k \<noteq> ''View'' \<longrightarrow>
           get_prop (heap s') c k = get_prop (heap s) (Ref m) k"
    and "\<forall>k. k \<notin> set (own_keys (heap s) (Ref m)) \<and> k \<noteq> ''View'' \<longrightarrow>
           get_prop (heap s') c k = get_prop (heap s) c k"
    and "\<exists>child. get_prop (heap s') c ''View'' = Some (Ref child)"
    and "\<exists>q. c = Ref q"
    and "root s' = root s"
proof -
  from namespace_Return_fields[OF r] obtain h1 q v where
    w: "walk (heap s) (Ref (root s)) (Ref m) (path_parts p) = Done c h1"
    and q: "c = Ref q" "q < length h1"
    and h: "heap s' = extended h1 q v (full_name p)"
    and ro: "root s' = root s"
    by auto
  from al have al': "alive (heap s) (Ref m)" by simp
  note W = walk_spec[OF w d al']
  note pn = path_parts_nonempty[OF ne]
  from W have res: "resolve h1 (Ref (root s)) (path_parts p) = Some c"
    and nb: "c \<notin> set (bases h1 (Ref (root s)) (path_parts p))" by blast+
  show "resolve (heap s') (Ref (root s)) (path_parts p) = Some c"
    unfolding h using resolve_extended[OF res nb[unfolded q(1)]] .
  show "c = last (trail (heap s) (Ref (root s)) (Ref m) (path_parts p))" using W by blast
  have g: "\<And>k. k \<noteq> ''View'' \<Longrightarrow> get_prop (heap s') c k = get_prop h1 c k"
    unfolding h q(1) using extended_get[OF q(2)] by simp
  show "\<forall>k \<in> set (own_keys (heap s) (Ref m)). k \<noteq> ''View'' \<longrightarrow>
           get_prop (heap s') c k = get_prop (heap s) (Ref m) k"
    using W pn g by (metis (no_types, lifting))
  show "\<forall>k. k \<notin> set (own_keys (heap s) (Ref m)) \<and> k \<noteq> ''View'' \<longrightarrow>
           get_prop (heap s') c k = get_prop (heap s) c k"
    using W pn g by (metis (no_types, lifting))
  show "\<exists>child. get_prop (heap s') c ''View'' = Some (Ref child)"
    unfolding h q(1) using extended_get[OF q(2)] by simp
  show "\<exists>q. c = Ref q" using q by blast
  show "root s' = root s" by (rule ro)
qed

lemma two_registrations:
  assumes r1: "namespace s p (Some m1) = Return c1 s1"
    and r2: "namespace (s1\<lparr>heap := heap s1 @ ex\<rparr>) p (Some m2) = Return c2 s2"
    and ne: "p \<noteq> []" and a1: "m1 < length (heap s)" and a2: "m2 < length (heap s1 @ ex)"
    and d1: "distinct (trail (heap s) (Ref (root s)) (Ref m1) (path_parts p))"
    and d2: "distinct (trail (heap s1 @ ex) (Ref (root s1)) (Ref m2) (path_parts p))"
  shows "c2 = c1"
    and "resolve (heap s2) (Ref (root s)) (path_parts p) = Some c1"
    and "\<forall>k \<in> set (own_keys (heap s1 @ ex) (Ref m2)). k \<noteq> ''View'' \<longrightarrow>
           get_prop (heap s2) c1 k = get_prop (heap s1 @ ex) (Ref m2) k"
    and "\<forall>k \<in> set (own_keys (heap s) (Ref m1)).
           k \<notin> set (own_keys (heap s1 @ ex) (Ref m2)) \<and> k \<noteq> ''View'' \<longrightarrow>
           get_prop (heap s2) c1 k = get_prop (heap s) (Ref m1) k"
proof -
  let ?t = "s1\<lparr>heap := heap s1 @ ex\<rparr>"
  have t: "heap ?t = heap s1 @ ex" "root ?t = root s1" by simp_all
  note R1 = registration_spec[OF r1 ne a1 d1]
  have a2': "m2 < length (heap ?t)" using a2 by simp
  have d2': "distinct (trail (heap ?t) (Ref (root ?t)) (Ref m2) (path_parts p))"
    using d2 by simp
  note R2 = registration_spec[OF r2 ne a2' d2', unfolded t]
  from R1(6) obtain q where q: "c1 = Ref q" by blast
  from R1(5) q have ql: "q < length (heap s1)" by (auto split: if_splits)
  have ga: "\<And>k. get_prop (heap s1 @ ex) c1 k = get_prop (heap s1) c1 k"
    unfolding q using ql by (simp add: nth_append)
  from R1(6) have "c1 \<noteq> Undefined" by auto
  from trail_resolve[OF resolve_append[OF R1(1)] this, of ex "Ref m2"] R2(2)
  show c: "c2 = c1" by (simp add: R1(7))
  show "resolve (heap s2) (Ref (root s)) (path_parts p) = Some c1"
    using R2(1) by (simp add: c R1(7))
  show "\<forall>k \<in> set (own_keys (heap s1 @ ex) (Ref m2)). k \<noteq> ''View'' \<longrightarrow>
           get_prop (heap s2) c1 k = get_prop (heap s1 @ ex) (Ref m2) k"
    using R2(3) by (simp add: c del: get_prop.simps own_keys.simps)
  show "\<forall>k \<in> set (own_keys (heap s) (Ref m1)).
           k \<notin> set (own_keys (heap s1 @ ex) (Ref m2)) \<and> k \<noteq> ''View'' \<longrightarrow>
           get_prop (heap s2) c1 k = get_prop (heap s) (Ref m1) k"
  proof (intro ballI impI)
    fix k assume k: "k \<in> set (own_keys (heap s) (Ref m1))"
      and n: "k \<notin> set (own_keys (heap s1 @ ex) (Ref m2)) \<and> k \<noteq> ''View''"
    from R2(4) n have "get_prop (heap s2) c1 k = get_prop (heap s1 @ ex) c1 k"
      unfolding c t by blast
    also have "\<dots> = get_prop (heap s1) c1 k" by (rule ga)
    also from R1(3) k n have "\<dots> = get_prop (heap s) (Ref m1) k" by blast
    finally show "get_prop (heap s2) c1 k = get_prop (heap s) (Ref m1) k" .
  qed
qed

section \<open>Evaluating the loaded module and the concrete runs\<close>

lemmas model_defs = literal_in_def loaded_def boot_def namespace_def module_state_def module_heap_def
     new_object_def alloc_def path_parts_def extend_view_def backbone_extend_def namespace_literal_def
     trigger_def full_name_def rootObject_def plain_def func_def ready_def

lemma return_state_of:
  "(case r of Return c s \<Rightarrow> c = v | _ \<Rightarrow> False) \<Longrightarrow> r = Return v (state_of r)"
  by (cases r) auto

lemma throw_state_of:
  "(case r of Throw s \<Rightarrow> True | _ \<Rightarrow> False) \<Longrightarrow> r = Throw (state_of r)"
  by (cases r) auto

lemma done_heap_of:
  "(case r of Done x h \<Rightarrow> x = v | Raised h \<Rightarrow> False) \<Longrightarrow> r = Done v (heap_of r)"
  by (cases r) auto

lemma boot_eval:
  "boot = Return (Ref 21)
     \<lparr>heap =
    [\<lparr>props = [], kind = BackboneExtend\<rparr>,
     plain [], plain [], plain [],
     plain [],
     plain [(''constructor'', Ref 6), (''config'', Ref 4), (''el'', Null)],
     func [(''extend'', Ref 0), (''prototype'', Ref 5), (''__super__'', Ref 1)],
     plain [(''constructor'', Ref 8)],
     func [(''extend'', Ref 0), (''prototype'', Ref 7), (''__super__'', Ref 2)],
     plain [(''constructor'', Ref 10)],
     func [(''extend'', Ref 0), (''prototype'', Ref 9), (''__super__'', Ref 2)],
     plain [(''constructor'', Ref 12), (''defaults'', Ref 13)],
     func [(''extend'', Ref 0), (''prototype'', Ref 11), (''__super__'', Ref 2)],
     plain [(''map'', Ref 14)], plain [],
     plain [(''constructor'', Ref 16)],
     func [(''extend'', Ref 0), (''prototype'', Ref 15), (''__super__'', Ref 3)],
     plain [],
     plain [],
     func [], func [],
     plain [(''pool'', Ref 17), (''Collection'', Ref 16), (''Config'', Ref 12),
            (''Model'', Ref 8), (''Templates'', Ref 10), (''View'', Ref 26),
            (''namespace'', Ref 19), (''ready'', Ref 20), (''views'', Ref 18)],
     plain [],
     plain [(''literal'', Prim (PStr ''bloomberg'')), (''object'', Ref 21)],
     plain [(''namespace'', Ref 23)],
     plain [(''config'', Ref 24)],
     func [(''extend'', Ref 0), (''prototype'', Ref 27), (''__super__'', Ref 5)],
     plain [(''constructor'', Ref 26), (''config'', Ref 24)]],
      root = 21, registry = [''bloomberg'' \<mapsto> Ref 21], handlers = [], fired = []\<rparr>"
  by (simp add: model_defs)

lemma loaded_heap:
  "heap loaded =
    [\<lparr>props = [], kind = BackboneExtend\<rparr>,
     plain [], plain [], plain [],
     plain [],
     plain [(''constructor'', Ref 6), (''config'', Ref 4), (''el'', Null)],
     func [(''extend'', Ref 0), (''prototype'', Ref 5), (''__super__'', Ref 1)],
     plain [(''constructor'', Ref 8)],
     func [(''extend'', Ref 0), (''prototype'', Ref 7), (''__super__'', Ref 2)],
     plain [(''constructor'', Ref 10)],
     func [(''extend'', Ref 0), (''prototype'', Ref 9), (''__super__'', Ref 2)],
     plain [(''constructor'', Ref 12), (''defaults'', Ref 13)],
     func [(''extend'', Ref 0), (''prototype'', Ref 11), (''__super__'', Ref 2)],
     plain [(''map'', Ref 14)], plain [],
     plain [(''constructor'', Ref 16)],
     func [(''extend'', Ref 0), (''prototype'', Ref 15), (''__super__'', Ref 3)],
     plain [],
     plain [],
     func [], func [],
     plain [(''pool'', Ref 17), (''Collection'', Ref 16), (''Config'', Ref 12),
            (''Model'', Ref 8), (''Templates'', Ref 10), (''View'', Ref 26),
            (''namespace'', Ref 19), (''ready'', Ref 20), (''views'', Ref 18)],
     plain [],
     plain [(''literal'', Prim (PStr ''bloomberg'')), (''object'', Ref 21)],
     plain [(''namespace'', Ref 23)],
     plain [(''config'', Ref 24)],
     func [(''extend'', Ref 0), (''prototype'', Ref 27), (''__super__'', Ref 5)],
     plain [(''constructor'', Ref 26), (''config'', Ref 24)]]"
  by (simp add: loaded_def boot_eval)

lemma loaded_rest:
  "root loaded = 21" "registry loaded = [''bloomberg'' \<mapsto> Ref 21]" "handlers loaded = []"
  "fired loaded = []"
  by (simp_all add: loaded_def boot_eval)


lemmas run_defs = literal_in_def namespace_def new_object_def alloc_def path_parts_def
  extend_view_def backbone_extend_def namespace_literal_def trigger_def full_name_def
  rootObject_def plain_def func_def ready_def loaded_heap loaded_rest

lemma shop_parts: "path_parts ''shop.cart'' = [''shop'', ''cart'']"
  by (simp add: path_parts_def)


lemma module_call_eval:
  "heap module_call = heap loaded @ [plain [(''Model'', Ref 8)]]"
  "root module_call = 21" "registry module_call = registry loaded"
  "handlers module_call = []" "fired module_call = []"
  by (simp_all add: module_call_def literal_in_def new_object_def alloc_def plain_def loaded_rest)

lemma root_call_eval:
  "heap root_call = heap loaded @ [plain [(''x'', Prim (PNum 1))]]"
  "root root_call = 21" "registry root_call = registry loaded"
  "handlers root_call = []" "fired root_call = []"
  by (simp_all add: root_call_def literal_in_def new_object_def alloc_def plain_def loaded_rest)

lemma root_done_eval: "namespace root_call [] (Some 28) = Return (Ref 21) root_done"
  by (simp add: root_done_def root_call_eval run_defs)

lemma view_call_eval:
  "heap view_call = heap loaded @
     [plain [],
      func [(''extend'', Ref 0), (''prototype'', Ref 30), (''__super__'', Ref 27)],
      plain [(''constructor'', Ref 29)],
      plain [(''View'', Ref 29)]]"
  "root view_call = 21" "registry view_call = registry loaded"
  "handlers view_call = []" "fired view_call = []"
  by (simp_all add: view_call_def caller_extend_def literal_in_def new_object_def alloc_def
        backbone_extend_def plain_def func_def loaded_rest loaded_heap)

lemma shop_call_eval:
  "heap shop_call = heap loaded @ [plain [(''View'', Ref 26), (''total'', Prim (PNum 0))]]"
  "root shop_call = 21" "registry shop_call = registry loaded"
  "handlers shop_call = []" "fired shop_call = []"
  by (simp_all add: shop_call_def literal_in_def new_object_def alloc_def plain_def loaded_rest)

lemma shop_done_eval: "namespace shop_call ''shop.cart'' (Some 28) = Return (Ref 28) shop_done"
  by (simp add: shop_done_def shop_call_eval run_defs)

lemma shop_trail:
  "distinct (trail (heap shop_call) (Ref (root shop_call)) (Ref 28) (path_parts ''shop.cart''))"
  by (simp add: shop_parts shop_call_eval run_defs)

lemma shop_done_heap:
  "heap shop_done =
     (heap loaded)
       [21 := plain [(''pool'', Ref 17), (''Collection'', Ref 16), (''Config'', Ref 12),
                     (''Model'', Ref 8), (''Templates'', Ref 10), (''View'', Ref 26),
                     (''namespace'', Ref 19), (''ready'', Ref 20), (''views'', Ref 18),
                     (''shop'', Ref 29)]]
     @ [plain [(''View'', Ref 33), (''total'', Prim (PNum 0))],
        plain [(''cart'', Ref 28)],
        plain [(''literal'', Prim (PStr ''bloomberg.shop.cart'')), (''object'', Ref 28)],
        plain [(''namespace'', Ref 30)],
        plain [(''config'', Ref 31)],
        func [(''extend'', Ref 0), (''prototype'', Ref 34), (''__super__'', Ref 27)],
        plain [(''constructor'', Ref 33), (''config'', Ref 31)]]"
  "root shop_done = 21" "handlers shop_done = []" "fired shop_done = []"
  by (simp_all add: shop_done_def shop_call_eval run_defs)


lemma loop_first_eval: "namespace loaded ''loop'' (Some 21) = Return (Ref 21) loop_first"
  unfolding loop_first_def by (rule return_state_of) (simp add: run_defs)

lemma loop_call_eval:
  "heap loop_call =
     (heap loaded)
       [21 := plain [(''pool'', Ref 17), (''Collection'', Ref 16), (''Config'', Ref 12),
                     (''Model'', Ref 8), (''Templates'', Ref 10), (''View'', Ref 31),
                     (''namespace'', Ref 19), (''ready'', Ref 20), (''views'', Ref 18),
                     (''loop'', Ref 21)]]
     @ [plain [(''literal'', Prim (PStr ''bloomberg.loop'')), (''object'', Ref 21)],
        plain [(''namespace'', Ref 28)],
        plain [(''config'', Ref 29)],
        func [(''extend'', Ref 0), (''prototype'', Ref 32), (''__super__'', Ref 27)],
        plain [(''constructor'', Ref 31), (''config'', Ref 29)],
        plain [(''View'', Ref 31)],
        plain [(''loop'', Ref 33)]]"
  "root loop_call = 21" "handlers loop_call = []" "fired loop_call = []"
  by (simp_all add: loop_call_def loop_first_def run_defs)

lemma usd_call_eval:
  "heap usd_call = heap shop_done @ [plain [(''currency'', Prim (PStr ''USD''))]]"
  "root usd_call = 21" "handlers usd_call = []" "fired usd_call = []"
  by (simp_all add: usd_call_def literal_in_def new_object_def alloc_def plain_def shop_done_heap)

lemma over_call_eval:
  "heap over_call = heap shop_done @ [plain [(''View'', Ref 26), (''total'', Prim (PNum 5))]]"
  "root over_call = 21" "handlers over_call = []" "fired over_call = []"
  by (simp_all add: over_call_def literal_in_def new_object_def alloc_def plain_def shop_done_heap)

lemma usd_call_split:
  "usd_call = shop_done\<lparr>heap := heap shop_done @ [plain [(''currency'', Prim (PStr ''USD''))]]\<rparr>"
  by (simp add: usd_call_def literal_in_def new_object_def alloc_def plain_def)

lemma over_call_split:
  "over_call = shop_done\<lparr>heap := heap shop_done @ [plain [(''View'', Ref 26), (''total'', Prim (PNum 5))]]\<rparr>"
  by (simp add: over_call_def literal_in_def new_object_def alloc_def plain_def)

lemma usd_done_eval: "namespace usd_call ''shop.cart'' (Some 35) = Return (Ref 28) usd_done"
  unfolding usd_done_def
  by (rule return_state_of) (simp add: usd_call_eval shop_done_heap run_defs)

lemma over_done_eval: "namespace over_call ''shop.cart'' (Some 35) = Return (Ref 28) over_done"
  unfolding over_done_def
  by (rule return_state_of) (simp add: over_call_eval shop_done_heap run_defs)

lemma extra_call_eval:
  "heap extra_call = heap shop_done @ [plain [(''View'', Ref 26)]]"
  "root extra_call = 21" "handlers extra_call = []" "fired extra_call = []"
  by (simp_all add: extra_call_def literal_in_def new_object_def alloc_def plain_def shop_done_heap)

section \<open>Members of a registered path\<close>

text \<open>
  Claim C1 as stated fails when the container already stored under the last segment is
  the object that holds that entry. After \<^verbatim>\<open>bloomberg.namespace("loop", bloomberg)\<close>
  the root is its own member \<^verbatim>\<open>loop\<close>; a following
  \<^verbatim>\<open>bloomberg.namespace("loop", {loop: {View: bloomberg.View}})\<close> writes the literal's
  member into the root, which redirects the path: the container now reached by
  \<^verbatim>\<open>bloomberg.loop\<close>, which the call returns, has no member \<^verbatim>\<open>loop\<close>.
\<close>

theorem self_reference_loses_member:
  "namespace loaded ''loop'' (Some 21) = Return (Ref 21) loop_first
   \<and> own_keys (heap loop_call) (Ref 34) = [''loop'']
   \<and> get_prop (heap loop_call) (Ref 34) ''loop'' = Some (Ref 33)
   \<and> namespace loop_call ''loop'' (Some 34) = Return (Ref 33) loop_done
   \<and> resolve (heap loop_done) (Ref 21) [''loop''] = Some (Ref 33)
   \<and> get_prop (heap loop_done) (Ref 33) ''loop'' = Some Undefined"
proof -
  have a: "own_keys (heap loop_call) (Ref 34) = [''loop'']"
    "get_prop (heap loop_call) (Ref 34) ''loop'' = Some (Ref 33)"
    by (simp_all add: loop_call_eval loaded_heap plain_def func_def)
  have b: "namespace loop_call ''loop'' (Some 34) = Return (Ref 33) loop_done"
    unfolding loop_done_def
    by (rule return_state_of) (simp add: loop_call_eval run_defs)
  have c: "resolve (heap loop_done) (Ref 21) [''loop''] = Some (Ref 33)"
    "get_prop (heap loop_done) (Ref 33) ''loop'' = Some Undefined"
    by (simp_all add: loop_done_def loop_call_eval run_defs)
  from loop_first_eval a b c show ?thesis by blast
qed

text \<open>
  Claim C1, amended. Let \<^verbatim>\<open>namespace(p, m)\<close> return for a non-empty path \<open>p\<close> and a
  literal \<open>m\<close> of the store, where the containers that exist along \<open>p\<close> before the
  call are pairwise different and different from \<open>m\<close>. Then walking the segments of
  \<open>p\<close> from the root reaches the returned container, which holds every member of
  \<open>m\<close> other than \<^verbatim>\<open>View\<close> with the value \<open>m\<close> gave it, and holds a \<^verbatim>\<open>View\<close>.
\<close>

theorem members_retrievable:
  assumes "namespace s p (Some m) = Return c s'"
    and "p \<noteq> []"
    and "m < length (heap s)"
    and "distinct (trail (heap s) (Ref (root s)) (Ref m) (path_parts p))"
  shows "resolve (heap s') (Ref (root s)) (path_parts p) = Some c
       \<and> (\<forall>k \<in> set (own_keys (heap s) (Ref m)). k \<noteq> ''View'' \<longrightarrow>
             get_prop (heap s') c k = get_prop (heap s) (Ref m) k)
       \<and> (\<exists>child. get_prop (heap s') c ''View'' = Some (Ref child))"
  using registration_spec(1,3,5)[OF assms] by blast

theorem members_retrievable_witness:
  "namespace shop_call ''shop.cart'' (Some 28) = Return (Ref 28) shop_done
   \<and> resolve (heap shop_done) (Ref 21) [''shop'', ''cart''] = Some (Ref 28)
   \<and> get_prop (heap shop_done) (Ref 28) ''total'' = Some (Prim (PNum 0))
   \<and> get_prop (heap shop_done) (Ref 28) ''View'' = Some (Ref 33)"
proof -
  have l: "28 < length (heap shop_call)" "''shop.cart'' \<noteq> []"
    by (simp_all add: shop_call_eval run_defs)
  note T = members_retrievable[OF shop_done_eval l(2) l(1) shop_trail]
  have k: "''total'' \<in> set (own_keys (heap shop_call) (Ref 28))"
    "get_prop (heap shop_call) (Ref 28) ''total'' = Some (Prim (PNum 0))"
    "root shop_call = 21"
    by (simp_all add: shop_call_eval run_defs)
  from T have a: "resolve (heap shop_done) (Ref 21) [''shop'', ''cart''] = Some (Ref 28)"
    by (simp add: shop_parts k(3))
  from T k have b: "get_prop (heap shop_done) (Ref 28) ''total'' = Some (Prim (PNum 0))"
    by (simp del: get_prop.simps own_keys.simps)
  from T obtain child where c: "get_prop (heap shop_done) (Ref 28) ''View'' = Some (Ref child)"
    by blast
  have "get_prop (heap shop_done) (Ref 28) ''View'' = Some (Ref 33)"
    by (simp add: shop_done_def shop_call_eval run_defs)
  with shop_done_eval a b show ?thesis by blast
qed

section \<open>Registrations that raise\<close>

text \<open>
  Claim C2. The claim fails on the usage the source documents at lines 152 to 154:
  \<^verbatim>\<open>bloomberg.namespace("module", {"Model": bloomberg.Model})\<close>. The container has no
  \<^verbatim>\<open>View\<close>, so line 501 calls \<^verbatim>\<open>extend\<close> on \<^verbatim>\<open>undefined\<close> and the call raises a
  TypeError after the tree has been changed and before anything is recorded.
\<close>

theorem documented_example_throws:
  "namespace module_call ''module'' (Some 28) = Throw module_thrown
   \<and> get_prop (heap module_thrown) (Ref 21) ''module'' = Some (Ref 28)
   \<and> get_prop (heap module_thrown) (Ref 28) ''View'' = Some Undefined
   \<and> registry module_thrown ''bloomberg.module'' = None
   \<and> fired module_thrown = []"
proof -
  have a: "namespace module_call ''module'' (Some 28) = Throw module_thrown"
    unfolding module_thrown_def
    by (rule throw_state_of) (simp add: module_call_eval run_defs)
  have b: "get_prop (heap module_thrown) (Ref 21) ''module'' = Some (Ref 28)"
    "get_prop (heap module_thrown) (Ref 28) ''View'' = Some Undefined"
    "registry module_thrown ''bloomberg.module'' = None"
    "fired module_thrown = []"
    by (simp_all add: module_thrown_def module_call_eval run_defs)
  from a b show ?thesis by blast
qed

section \<open>A subscriber bound before the registration\<close>




section \<open>A subscriber bound after the registration\<close>



section \<open>Registering the same path twice\<close>

text \<open>
  Claim C5 as stated fails for the member \<^verbatim>\<open>View\<close>: after
  \<^verbatim>\<open>bloomberg.namespace("shop.cart", {View: bloomberg.View, total: 0})\<close> and
  \<^verbatim>\<open>bloomberg.namespace("shop.cart", {currency: "USD"})\<close> the container's \<^verbatim>\<open>View\<close> is
  object 39, created by the second call, and not the \<^verbatim>\<open>View\<close> of the first literal
  (object 26).
\<close>

theorem union_replaces_view:
  "own_keys (heap shop_call) (Ref 28) = [''View'', ''total'']
   \<and> get_prop (heap shop_call) (Ref 28) ''View'' = Some (Ref 26)
   \<and> namespace shop_call ''shop.cart'' (Some 28) = Return (Ref 28) shop_done
   \<and> own_keys (heap usd_call) (Ref 35) = [''currency'']
   \<and> namespace usd_call ''shop.cart'' (Some 35) = Return (Ref 28) usd_done
   \<and> get_prop (heap usd_done) (Ref 28) ''View'' = Some (Ref 39)"
proof -
  have a: "own_keys (heap shop_call) (Ref 28) = [''View'', ''total'']"
    "get_prop (heap shop_call) (Ref 28) ''View'' = Some (Ref 26)"
    by (simp_all add: shop_call_eval run_defs)
  have b: "own_keys (heap usd_call) (Ref 35) = [''currency'']"
    by (simp add: usd_call_eval shop_done_heap run_defs)
  have c: "get_prop (heap usd_done) (Ref 28) ''View'' = Some (Ref 39)"
    by (simp add: usd_done_def usd_call_eval shop_done_heap run_defs)
  from a b c shop_done_eval usd_done_eval show ?thesis by blast
qed

text \<open>
  Between the two calls the caller may allocate objects (the second literal, for one):
  the second call starts from the store the first call left, extended by \<open>ex\<close>.

  Claim C5, amended. Let \<^verbatim>\<open>namespace(p, m1)\<close> and then \<^verbatim>\<open>namespace(p, m2)\<close> return
  for a non-empty path, with literals whose key sets are disjoint, where before each
  call the containers along \<open>p\<close> are pairwise different and different from the
  literal. Then both calls return the same container, walking \<open>p\<close> from the root
  reaches it, and it holds every member of \<open>m1\<close> and of \<open>m2\<close> other than
  \<^verbatim>\<open>View\<close> with the value the literal gave it.
\<close>

theorem disjoint_members_union:
  assumes "namespace s p (Some m1) = Return c1 s1"
    and "namespace (s1\<lparr>heap := heap s1 @ ex\<rparr>) p (Some m2) = Return c2 s2"
    and "p \<noteq> []" and "m1 < length (heap s)" and "m2 < length (heap s1 @ ex)"
    and "distinct (trail (heap s) (Ref (root s)) (Ref m1) (path_parts p))"
    and "distinct (trail (heap s1 @ ex) (Ref (root s1)) (Ref m2) (path_parts p))"
    and "set (own_keys (heap s) (Ref m1)) \<inter> set (own_keys (heap s1 @ ex) (Ref m2)) = {}"
  shows "c2 = c1
       \<and> resolve (heap s2) (Ref (root s)) (path_parts p) = Some c2
       \<and> (\<forall>k \<in> set (own_keys (heap s) (Ref m1)). k \<noteq> ''View'' \<longrightarrow>
             get_prop (heap s2) c2 k = get_prop (heap s) (Ref m1) k)
       \<and> (\<forall>k \<in> set (own_keys (heap s1 @ ex) (Ref m2)). k \<noteq> ''View'' \<longrightarrow>
             get_prop (heap s2) c2 k = get_prop (heap s1 @ ex) (Ref m2) k)"
proof -
  note T = two_registrations[OF assms(1-7)]
  have "\<forall>k \<in> set (own_keys (heap s) (Ref m1)). k \<noteq> ''View'' \<longrightarrow>
             get_prop (heap s2) c1 k = get_prop (heap s) (Ref m1) k"
    using T(4) assms(8) by blast
  with T(1,2,3) show ?thesis by simp
qed

theorem disjoint_members_union_witness:
  "namespace shop_call ''shop.cart'' (Some 28) = Return (Ref 28) shop_done
   \<and> namespace usd_call ''shop.cart'' (Some 35) = Return (Ref 28) usd_done
   \<and> resolve (heap usd_done) (Ref 21) [''shop'', ''cart''] = Some (Ref 28)
   \<and> get_prop (heap usd_done) (Ref 28) ''total'' = Some (Prim (PNum 0))
   \<and> get_prop (heap usd_done) (Ref 28) ''currency'' = Some (Prim (PStr ''USD''))"
proof -
  let ?ex = "[plain [(''currency'', Prim (PStr ''USD''))]]"
  have r2: "namespace (shop_done\<lparr>heap := heap shop_done @ ?ex\<rparr>) ''shop.cart'' (Some 35)
              = Return (Ref 28) usd_done"
    using usd_done_eval unfolding usd_call_split .
  have h: "heap shop_done @ ?ex = heap usd_call" by (simp add: usd_call_eval)
  have l: "''shop.cart'' \<noteq> []" "28 < length (heap shop_call)"
    "35 < length (heap shop_done @ ?ex)"
    by (simp_all add: shop_call_eval shop_done_heap run_defs)
  have d2: "distinct (trail (heap shop_done @ ?ex) (Ref (root shop_done)) (Ref 35)
              (path_parts ''shop.cart''))"
    by (simp add: shop_parts shop_done_heap run_defs)
  have k1: "own_keys (heap shop_call) (Ref 28) = [''View'', ''total'']"
    "get_prop (heap shop_call) (Ref 28) ''total'' = Some (Prim (PNum 0))"
    "root shop_call = 21"
    by (simp_all add: shop_call_eval run_defs)
  have k2: "own_keys (heap shop_done @ ?ex) (Ref 35) = [''currency'']"
    "get_prop (heap shop_done @ ?ex) (Ref 35) ''currency'' = Some (Prim (PStr ''USD''))"
    by (simp_all add: shop_done_heap run_defs)
  have dj: "set (own_keys (heap shop_call) (Ref 28)) \<inter> set (own_keys (heap shop_done @ ?ex) (Ref 35)) = {}"
    unfolding k1 k2 by simp
  note T = disjoint_members_union[OF shop_done_eval r2 l shop_trail d2 dj]
  from T have a: "resolve (heap usd_done) (Ref 21) [''shop'', ''cart''] = Some (Ref 28)"
    by (simp add: shop_parts k1(3))
  from T have b: "get_prop (heap usd_done) (Ref 28) ''total'' = Some (Prim (PNum 0))"
    by (simp add: k1 k2 del: get_prop.simps own_keys.simps)
  from T have c: "get_prop (heap usd_done) (Ref 28) ''currency'' = Some (Prim (PStr ''USD''))"
    by (simp add: k1 k2 del: get_prop.simps own_keys.simps)
  from shop_done_eval usd_done_eval a b c show ?thesis by blast
qed

text \<open>
  Claim C6 as stated fails for the member \<^verbatim>\<open>View\<close>: when both literals have one, the
  container afterwards holds a class created by the second call (object 39), not the
  second literal's \<^verbatim>\<open>View\<close> (object 26).
\<close>

theorem later_view_is_replaced:
  "own_keys (heap shop_call) (Ref 28) = [''View'', ''total'']
   \<and> namespace shop_call ''shop.cart'' (Some 28) = Return (Ref 28) shop_done
   \<and> own_keys (heap over_call) (Ref 35) = [''View'', ''total'']
   \<and> get_prop (heap over_call) (Ref 35) ''View'' = Some (Ref 26)
   \<and> namespace over_call ''shop.cart'' (Some 35) = Return (Ref 28) over_done
   \<and> get_prop (heap over_done) (Ref 28) ''View'' = Some (Ref 39)"
proof -
  have a: "own_keys (heap shop_call) (Ref 28) = [''View'', ''total'']"
    by (simp add: shop_call_eval run_defs)
  have b: "own_keys (heap over_call) (Ref 35) = [''View'', ''total'']"
    "get_prop (heap over_call) (Ref 35) ''View'' = Some (Ref 26)"
    by (simp_all add: over_call_eval shop_done_heap run_defs)
  have c: "get_prop (heap over_done) (Ref 28) ''View'' = Some (Ref 39)"
    by (simp add: over_done_def over_call_eval shop_done_heap run_defs)
  from a b c shop_done_eval over_done_eval show ?thesis by blast
qed

text \<open>
  Claim C6, amended. Under the same conditions without disjointness, for every key
  other than \<^verbatim>\<open>View\<close> that both literals have, the container holds the value of the
  second literal: the very value, so the merge is one level deep.
\<close>

theorem later_registration_wins:
  assumes "namespace s p (Some m1) = Return c1 s1"
    and "namespace (s1\<lparr>heap := heap s1 @ ex\<rparr>) p (Some m2) = Return c2 s2"
    and "p \<noteq> []" and "m1 < length (heap s)" and "m2 < length (heap s1 @ ex)"
    and "distinct (trail (heap s) (Ref (root s)) (Ref m1) (path_parts p))"
    and "distinct (trail (heap s1 @ ex) (Ref (root s1)) (Ref m2) (path_parts p))"
  shows "c2 = c1
       \<and> resolve (heap s2) (Ref (root s)) (path_parts p) = Some c2
       \<and> (\<forall>k \<in> set (own_keys (heap s) (Ref m1)) \<inter> set (own_keys (heap s1 @ ex) (Ref m2)).
             k \<noteq> ''View'' \<longrightarrow> get_prop (heap s2) c2 k = get_prop (heap s1 @ ex) (Ref m2) k)"
proof -
  note T = two_registrations[OF assms]
  from T(1,2,3) show ?thesis by simp
qed

theorem later_registration_wins_witness:
  "namespace shop_call ''shop.cart'' (Some 28) = Return (Ref 28) shop_done
   \<and> namespace over_call ''shop.cart'' (Some 35) = Return (Ref 28) over_done
   \<and> get_prop (heap shop_call) (Ref 28) ''total'' = Some (Prim (PNum 0))
   \<and> get_prop (heap over_call) (Ref 35) ''total'' = Some (Prim (PNum 5))
   \<and> get_prop (heap over_done) (Ref 28) ''total'' = Some (Prim (PNum 5))"
proof -
  let ?ex = "[plain [(''View'', Ref 26), (''total'', Prim (PNum 5))]]"
  have r2: "namespace (shop_done\<lparr>heap := heap shop_done @ ?ex\<rparr>) ''shop.cart'' (Some 35)
              = Return (Ref 28) over_done"
    using over_done_eval unfolding over_call_split .
  have h: "heap over_call = heap shop_done @ ?ex" by (simp add: over_call_eval)
  have l: "''shop.cart'' \<noteq> []" "28 < length (heap shop_call)"
    "35 < length (heap shop_done @ ?ex)"
    by (simp_all add: shop_call_eval shop_done_heap run_defs)
  have d2: "distinct (trail (heap shop_done @ ?ex) (Ref (root shop_done)) (Ref 35)
              (path_parts ''shop.cart''))"
    by (simp add: shop_parts shop_done_heap run_defs)
  have k1: "own_keys (heap shop_call) (Ref 28) = [''View'', ''total'']"
    "get_prop (heap shop_call) (Ref 28) ''total'' = Some (Prim (PNum 0))"
    by (simp_all add: shop_call_eval run_defs)
  have k2: "own_keys (heap shop_done @ ?ex) (Ref 35) = [''View'', ''total'']"
    "get_prop (heap shop_done @ ?ex) (Ref 35) ''total'' = Some (Prim (PNum 5))"
    by (simp_all add: shop_done_heap run_defs)
  note T = later_registration_wins[OF shop_done_eval r2 l shop_trail d2]
  from T have b: "get_prop (heap over_done) (Ref 28) ''total'' = Some (Prim (PNum 5))"
    by (simp add: k1 k2 del: get_prop.simps own_keys.simps)
  from shop_done_eval over_done_eval k1(2) k2(2)[folded h] b show ?thesis by blast
qed

section \<open>Intermediate containers\<close>

text \<open>
  \<open>descend_spec\<close> above is the specification's rule for the segments before the last:
  if the current container lacks the key, create an empty container there; descend.

  Claim C7. For a path of several segments the loop of \<^verbatim>\<open>namespace\<close> is that descent
  through the segments before the last, followed by the iteration for the last one, and
  a registration that returns has completed the descent. After the descent every
  prefix of the intermediate path that led to a value before still leads to the same
  value, every object keeps its kind and every member it had, every prefix that led
  nowhere leads to an object allocated by the descent, and each object allocated by the
  descent is a plain object whose members, if any, are objects allocated by the descent
  (the container created for the next segment).
\<close>

theorem intermediate_containers:
  "walk h v l (ps @ [z]) =
     (case descend_spec h v ps of Raised h' \<Rightarrow> Raised h' | Done P h1 \<Rightarrow> walk h1 P l [z])
   \<and> (namespace s p (Some m) = Return c s' \<and> path_parts p = ps @ [z] \<longrightarrow>
        (\<exists>P h1. descend_spec (heap s) (Ref (root s)) ps = Done P h1))
   \<and> (descend_spec h v ps = Done P h1 \<longrightarrow>
        resolve h1 v ps = Some P
      \<and> (\<forall>n x. n \<le> length ps \<and> resolve h v (take n ps) = Some x \<and> x \<noteq> Undefined
             \<longrightarrow> resolve h1 v (take n ps) = Some x)
      \<and> (\<forall>a k. a < length h \<and> get_prop h (Ref a) k \<noteq> Some Undefined
             \<longrightarrow> get_prop h1 (Ref a) k = get_prop h (Ref a) k)
      \<and> (\<forall>a. a < length h \<longrightarrow> kind (h1 ! a) = kind (h ! a))
      \<and> (\<forall>n. 0 < n \<and> n \<le> length ps
              \<and> (resolve h v (take n ps) = None \<or> resolve h v (take n ps) = Some Undefined)
             \<longrightarrow> (\<exists>b. resolve h1 v (take n ps) = Some (Ref b) \<and> length h \<le> b \<and> b < length h1))
      \<and> (\<forall>b k. length h \<le> b \<and> b < length h1
             \<longrightarrow> kind (h1 ! b) = Plain
               \<and> (get_prop h1 (Ref b) k = Some Undefined
                  \<or> (\<exists>b'. get_prop h1 (Ref b) k = Some (Ref b') \<and> length h \<le> b' \<and> b' < length h1))))"
proof (intro conjI impI)
  show "walk h v l (ps @ [z]) =
     (case descend_spec h v ps of Raised h' \<Rightarrow> Raised h' | Done P h1 \<Rightarrow> walk h1 P l [z])"
    by (rule walk_descend)
next
  assume a: "namespace s p (Some m) = Return c s' \<and> path_parts p = ps @ [z]"
  with namespace_Return_fields[of s p "Some m" c s'] obtain h1 where
    "walk (heap s) (Ref (root s)) (Ref m) (ps @ [z]) = Done c h1" by auto
  then show "\<exists>P h1. descend_spec (heap s) (Ref (root s)) ps = Done P h1"
    unfolding walk_descend by (cases "descend_spec (heap s) (Ref (root s)) ps") auto
next
  assume d: "descend_spec h v ps = Done P h1"
  show "resolve h1 v ps = Some P" by (rule descend_resolve[OF d])
  show "\<forall>n x. n \<le> length ps \<and> resolve h v (take n ps) = Some x \<and> x \<noteq> Undefined
             \<longrightarrow> resolve h1 v (take n ps) = Some x"
    using descend_resolve_keeps[OF d] by blast
  show "\<forall>a k. a < length h \<and> get_prop h (Ref a) k \<noteq> Some Undefined
             \<longrightarrow> get_prop h1 (Ref a) k = get_prop h (Ref a) k"
    using descend_keeps[OF d] by blast
  show "\<forall>a. a < length h \<longrightarrow> kind (h1 ! a) = kind (h ! a)"
    using descend_delta[OF d] by blast
  show "\<forall>n. 0 < n \<and> n \<le> length ps
              \<and> (resolve h v (take n ps) = None \<or> resolve h v (take n ps) = Some Undefined)
             \<longrightarrow> (\<exists>b. resolve h1 v (take n ps) = Some (Ref b) \<and> length h \<le> b \<and> b < length h1)"
    using descend_creates[OF d] by blast
  show "\<forall>b k. length h \<le> b \<and> b < length h1
             \<longrightarrow> kind (h1 ! b) = Plain
               \<and> (get_prop h1 (Ref b) k = Some Undefined
                  \<or> (\<exists>b'. get_prop h1 (Ref b) k = Some (Ref b') \<and> length h \<le> b' \<and> b' < length h1))"
    using descend_new[OF d] by blast
qed

theorem intermediate_containers_witness:
  "path_parts ''shop.extra.items'' = [''shop'', ''extra''] @ [''items'']
   \<and> namespace extra_call ''shop.extra.items'' (Some 35) = Return (Ref 35) extra_done
   \<and> descend_spec (heap extra_call) (Ref 21) [''shop'', ''extra''] = Done (Ref 36) extra_mid
   \<and> walk (heap extra_call) (Ref 21) (Ref 35) ([''shop'', ''extra''] @ [''items''])
        = walk extra_mid (Ref 36) (Ref 35) [''items'']
   \<and> resolve extra_mid (Ref 21) [''shop'', ''extra''] = Some (Ref 36)
   \<and> resolve (heap extra_call) (Ref 21) [''shop''] = Some (Ref 29)
   \<and> resolve extra_mid (Ref 21) [''shop''] = Some (Ref 29)
   \<and> get_prop (heap extra_call) (Ref 29) ''cart'' = Some (Ref 28)
   \<and> get_prop extra_mid (Ref 29) ''cart'' = Some (Ref 28)
   \<and> kind (extra_mid ! 29) = kind (heap extra_call ! 29)
   \<and> resolve (heap extra_call) (Ref 21) [''shop'', ''extra''] = Some Undefined
   \<and> kind (extra_mid ! 36) = Plain"
proof -
  let ?h = "heap extra_call"
  have pp: "path_parts ''shop.extra.items'' = [''shop'', ''extra''] @ [''items'']"
    by (simp add: path_parts_def)
  have r: "namespace extra_call ''shop.extra.items'' (Some 35) = Return (Ref 35) extra_done"
    unfolding extra_done_def
    by (rule return_state_of) (simp add: extra_call_eval shop_done_heap run_defs)
  have d: "descend_spec ?h (Ref 21) [''shop'', ''extra''] = Done (Ref 36) extra_mid"
    unfolding extra_mid_def
    by (rule done_heap_of) (simp add: extra_call_eval shop_done_heap run_defs)
  have len: "length ?h = 36" "length extra_mid = 37"
    by (simp_all add: extra_mid_def extra_call_eval shop_done_heap run_defs)
  have e1: "resolve ?h (Ref 21) (take 1 [''shop'', ''extra'']) = Some (Ref 29)"
    and e2: "resolve ?h (Ref 21) (take 2 [''shop'', ''extra'']) = Some Undefined"
    and e3: "get_prop ?h (Ref 29) ''cart'' = Some (Ref 28)"
    by (simp_all add: extra_call_eval shop_done_heap run_defs)
  note T = intermediate_containers[of ?h "Ref 21" "Ref 35" "[''shop'', ''extra'']" "''items''"
      extra_call "''shop.extra.items''" 35 "Ref 35" extra_done "Ref 36" extra_mid]
  from T d have w: "walk ?h (Ref 21) (Ref 35) ([''shop'', ''extra''] @ [''items''])
        = walk extra_mid (Ref 36) (Ref 35) [''items'']" by simp
  from T r pp have "\<exists>P h1. descend_spec ?h (Ref (root extra_call)) [''shop'', ''extra''] = Done P h1"
    by blast
  from T d have "resolve extra_mid (Ref 21) [''shop'', ''extra''] = Some (Ref 36)" by blast
  from T d have "\<forall>n. 0 < n \<and> n \<le> length [''shop'', ''extra'']
        \<and> (resolve ?h (Ref 21) (take n [''shop'', ''extra'']) = None
           \<or> resolve ?h (Ref 21) (take n [''shop'', ''extra'']) = Some Undefined)
        \<longrightarrow> (\<exists>b. resolve extra_mid (Ref 21) (take n [''shop'', ''extra'']) = Some (Ref b)
               \<and> length ?h \<le> b \<and> b < length extra_mid)" by blast
  from this[rule_format, of 2] e2 len obtain b where
    "resolve extra_mid (Ref 21) [''shop'', ''extra''] = Some (Ref b)" "36 \<le> b" "b < 37"
    by auto
  then have a: "resolve extra_mid (Ref 21) [''shop'', ''extra''] = Some (Ref 36)"
    by (cases "b = 36") auto
  from T d have "\<forall>n x. n \<le> length [''shop'', ''extra'']
        \<and> resolve ?h (Ref 21) (take n [''shop'', ''extra'']) = Some x \<and> x \<noteq> Undefined
        \<longrightarrow> resolve extra_mid (Ref 21) (take n [''shop'', ''extra'']) = Some x" by blast
  from this[rule_format, of 1 "Ref 29"] e1
  have b: "resolve extra_mid (Ref 21) [''shop''] = Some (Ref 29)" by simp
  from T d have "\<forall>a k. a < length ?h \<and> get_prop ?h (Ref a) k \<noteq> Some Undefined
             \<longrightarrow> get_prop extra_mid (Ref a) k = get_prop ?h (Ref a) k" by blast
  from this[rule_format, of 29 "''cart''"] e3 len
  have c: "get_prop extra_mid (Ref 29) ''cart'' = Some (Ref 28)" by simp
  from T d have "\<forall>a. a < length ?h \<longrightarrow> kind (extra_mid ! a) = kind (?h ! a)" by blast
  from this[rule_format, of 29] len have k: "kind (extra_mid ! 29) = kind (?h ! 29)" by simp
  from T d have "\<forall>b k. length ?h \<le> b \<and> b < length extra_mid
             \<longrightarrow> kind (extra_mid ! b) = Plain
               \<and> (get_prop extra_mid (Ref b) k = Some Undefined
                  \<or> (\<exists>b'. get_prop extra_mid (Ref b) k = Some (Ref b') \<and> length ?h \<le> b'
                         \<and> b' < length extra_mid))" by blast
  from this[rule_format, of 36] len have n: "kind (extra_mid ! 36) = Plain" by simp
  from e1 have e1': "resolve ?h (Ref 21) [''shop''] = Some (Ref 29)" by simp
  from e2 have e2': "resolve ?h (Ref 21) [''shop'', ''extra''] = Some Undefined" by simp
  from pp r d w a e1' b e3 c k e2' n show ?thesis by blast
qed

section \<open>Registering the root\<close>

text \<open>
  Claim C8 as stated fails: after \<^verbatim>\<open>bloomberg.namespace("", {x: 1})\<close> on the loaded
  module the root container has no member \<^verbatim>\<open>x\<close>.
\<close>

theorem root_members_not_merged:
  "own_keys (heap root_call) (Ref 28) = [''x'']
   \<and> namespace root_call [] (Some 28) = Return (Ref 21) root_done
   \<and> get_prop (heap root_done) (Ref 21) ''x'' = Some Undefined"
  by (simp add: root_done_def root_call_eval run_defs)

text \<open>
  Claim C8, amended. For the empty path the loop of lines 485 to 499 does not run, so
  the literal is never read: \<^verbatim>\<open>namespace("", m)\<close> returns the root container, leaves
  every member of the root other than \<^verbatim>\<open>View\<close> and every other object (the literal
  among them) as they were, records the root under the root name alone and signals
  \<^verbatim>\<open>ready.\<close> followed by the root name.
\<close>

theorem root_registration_ignores_members:
  assumes "namespace s [] lit = Return c s'"
  shows "c = Ref (root s)
    \<and> (\<forall>k. k \<noteq> ''View'' \<longrightarrow> get_prop (heap s') c k = get_prop (heap s) c k)
    \<and> (\<forall>a < length (heap s). a \<noteq> root s \<longrightarrow> heap s' ! a = heap s ! a)
    \<and> registry s' = (registry s)(rootObject \<mapsto> c)
    \<and> (\<exists>pool. get_prop (heap s) (Ref (root s)) ''pool'' = Some pool
          \<and> fired s' = fired (trigger s pool (''ready.'' @ rootObject)))"
proof -
  from namespace_Return_fields[OF assms] obtain pool literal h0 h1 q v where
    p: "get_prop (heap s) (Ref (root s)) ''pool'' = Some pool"
    and l: "(case lit of Some a \<Rightarrow> literal = Ref a \<and> h0 = heap s
                        | None \<Rightarrow> literal = Ref (length (heap s)) \<and> h0 = heap s @ [plain []])"
    and w: "walk h0 (Ref (root s)) literal (path_parts []) = Done c h1"
    and q: "c = Ref q" "q < length h1"
    and h: "heap s' = extended h1 q v (full_name [])"
    and r: "registry s' = (registry s)(full_name [] \<mapsto> c)"
    and f: "fired s' = fired (trigger s pool (''ready.'' @ full_name []))"
    by blast
  from w have c: "c = Ref (root s)" and h1: "h1 = h0" by (simp_all add: path_parts_def)
  from p have rl: "root s < length (heap s)" by (simp split: if_splits)
  from l obtain ex where h0: "h0 = heap s @ ex" by (cases lit) auto
  have qr: "q = root s" using c q by simp
  have fn: "full_name [] = rootObject" by (simp add: full_name_def)
  have g0: "\<And>k. get_prop h0 (Ref (root s)) k = get_prop (heap s) (Ref (root s)) k"
    using rl by (simp add: h0 nth_append)
  have a: "\<forall>k. k \<noteq> ''View'' \<longrightarrow> get_prop (heap s') c k = get_prop (heap s) c k"
    unfolding h c h1 qr using extended_get[of "root s" h0 v "full_name []"] rl g0
    by (simp add: h0 del: get_prop.simps)
  have b: "\<forall>a < length (heap s). a \<noteq> root s \<longrightarrow> heap s' ! a = heap s ! a"
    unfolding h h1 qr using extended_other[of _ h0 "root s" v "full_name []"]
    by (simp add: h0 nth_append)
  from c a b r f p show ?thesis unfolding fn by blast
qed

theorem root_registration_witness:
  "namespace root_call [] (Some 28) = Return (Ref 21) root_done
   \<and> get_prop (heap root_done) (Ref 21) ''pool'' = get_prop (heap root_call) (Ref 21) ''pool''
   \<and> heap root_done ! 28 = heap root_call ! 28
   \<and> registry root_done = (registry root_call)(''bloomberg'' \<mapsto> Ref 21)
   \<and> fired root_done = fired (trigger root_call (Ref 17) ''ready.bloomberg'')"
proof -
  note T = root_registration_ignores_members[OF root_done_eval]
  have l: "(28::nat) < length (heap root_call)" "(28::nat) \<noteq> root root_call"
    by (simp_all add: root_call_eval run_defs)
  have p: "get_prop (heap root_call) (Ref (root root_call)) ''pool'' = Some (Ref 17)"
    by (simp add: root_call_eval run_defs)
  from T have a: "get_prop (heap root_done) (Ref 21) ''pool'' = get_prop (heap root_call) (Ref 21) ''pool''"
    by (simp del: get_prop.simps)
  from T l have b: "heap root_done ! 28 = heap root_call ! 28" by blast
  from T have c: "registry root_done = (registry root_call)(''bloomberg'' \<mapsto> Ref 21)"
    by (simp add: rootObject_def)
  from T p have d: "fired root_done = fired (trigger root_call (Ref 17) ''ready.bloomberg'')"
    by (auto simp: rootObject_def simp del: get_prop.simps)
  from root_done_eval a b c d show ?thesis by blast
qed

section \<open>The extended View\<close>

text \<open>
  Claim C9 as stated fails for the empty path: after
  \<^verbatim>\<open>bloomberg.namespace("", {View: bloomberg.View.extend({})})\<close> the root's new View
  extends the View the root had before (its \<^verbatim>\<open>__super__\<close> is that View's prototype,
  object 27), not the literal's View (whose prototype is object 30).
\<close>

theorem root_view_not_from_literal:
  "get_prop (heap view_call) (Ref 31) ''View'' = Some (Ref 29)
   \<and> get_prop (heap view_call) (Ref 29) ''prototype'' = Some (Ref 30)
   \<and> namespace view_call [] (Some 31) = Return (Ref 21) view_done
   \<and> get_prop (heap view_done) (Ref 21) ''View'' = Some (Ref 35)
   \<and> get_prop (heap view_done) (Ref 35) ''__super__'' = Some (Ref 27)
   \<and> get_prop (heap view_done) (Ref 29) ''prototype'' = Some (Ref 30)"
  by (simp add: view_done_def view_call_eval run_defs)

text \<open>
  Claim C9, amended. After \<^verbatim>\<open>namespace(p, m)\<close> has returned, the \<^verbatim>\<open>View\<close> member of
  the terminal container is a function created by the call, whose prototype's
  \<^verbatim>\<open>config.namespace.literal\<close> is the fully-qualified name and whose
  \<^verbatim>\<open>config.namespace.object\<close> is the terminal container. It extends the literal's
  \<^verbatim>\<open>View\<close> (its \<^verbatim>\<open>__super__\<close> is that View's prototype, and it is not that View) when
  the path is not empty, the literal has a \<^verbatim>\<open>View\<close> and the containers on the path
  are pairwise different and different from the literal.
\<close>

theorem view_is_extended:
  assumes "namespace s ns lit = Return c s'"
  shows "\<exists>child proto cfg nso.
      get_prop (heap s') c ''View'' = Some (Ref child)
    \<and> length (heap s) \<le> child
    \<and> kind (heap s' ! child) = Function
    \<and> get_prop (heap s') (Ref child) ''prototype'' = Some proto
    \<and> get_prop (heap s') proto ''config'' = Some cfg
    \<and> get_prop (heap s') cfg ''namespace'' = Some nso
    \<and> get_prop (heap s') nso ''literal'' = Some (Prim (PStr (full_name ns)))
    \<and> get_prop (heap s') nso ''object'' = Some c
    \<and> (\<forall>m mv. lit = Some m \<and> ns \<noteq> [] \<and> m < length (heap s)
           \<and> distinct (trail (heap s) (Ref (root s)) (Ref m) (path_parts ns))
           \<and> ''View'' \<in> set (own_keys (heap s) (Ref m))
           \<and> get_prop (heap s) (Ref m) ''View'' = Some mv
         \<longrightarrow> mv \<noteq> Ref child
             \<and> get_prop (heap s') (Ref child) ''__super__'' = get_prop (heap s') mv ''prototype'')"
proof -
  from namespace_Return_fields[OF assms] obtain pool literal h0 h1 q v where
    l: "(case lit of Some a \<Rightarrow> literal = Ref a \<and> h0 = heap s
                        | None \<Rightarrow> literal = Ref (length (heap s)) \<and> h0 = heap s @ [plain []])"
    and w: "walk h0 (Ref (root s)) literal (path_parts ns) = Done c h1"
    and q: "c = Ref q" "q < length h1" and v: "v < length h1"
    and gv: "get_prop h1 c ''View'' = Some (Ref v)"
    and h: "heap s' = extended h1 q v (full_name ns)"
    by blast
  let ?n = "length h1"
  note E = extended_child[OF q(2) v, of "full_name ns"]
  from l have "length (heap s) \<le> length h0" by (cases lit) auto
  with walk_length[OF w] have len: "length (heap s) \<le> ?n + 3" by simp
  have a: "get_prop (heap s') c ''View'' = Some (Ref (?n + 3))"
    unfolding h q(1) using extended_get[OF q(2)] by simp
  have sub: "mv \<noteq> Ref (?n + 3)
       \<and> get_prop (heap s') (Ref (?n + 3)) ''__super__'' = get_prop (heap s') mv ''prototype''"
    if "lit = Some m" "ns \<noteq> []" "m < length (heap s)"
      "distinct (trail (heap s) (Ref (root s)) (Ref m) (path_parts ns))"
      "''View'' \<in> set (own_keys (heap s) (Ref m))"
      "get_prop (heap s) (Ref m) ''View'' = Some mv" for m mv
  proof -
    from l that(1) have lm: "literal = Ref m" "h0 = heap s" by simp_all
    from that(3) have al: "alive (heap s) (Ref m)" by simp
    note W = walk_spec[OF w[unfolded lm] that(4) al]
    from W path_parts_nonempty[OF that(2)] that(5)
    have "get_prop h1 c ''View'' = get_prop (heap s) (Ref m) ''View''" by blast
    with gv that(6) have mv: "mv = Ref v" by simp
    show ?thesis unfolding mv h using E(2,8) v by simp
  qed
  show ?thesis
    using a len E(1,3,4,5,6,7) sub unfolding h q(1) by blast
qed

theorem view_is_extended_witness:
  "namespace shop_call ''shop.cart'' (Some 28) = Return (Ref 28) shop_done
   \<and> get_prop (heap shop_call) (Ref 28) ''View'' = Some (Ref 26)
   \<and> get_prop (heap shop_done) (Ref 28) ''View'' = Some (Ref 33)
   \<and> kind (heap shop_done ! 33) = Function
   \<and> get_prop (heap shop_done) (Ref 33) ''prototype'' = Some (Ref 34)
   \<and> get_prop (heap shop_done) (Ref 34) ''config'' = Some (Ref 31)
   \<and> get_prop (heap shop_done) (Ref 31) ''namespace'' = Some (Ref 30)
   \<and> get_prop (heap shop_done) (Ref 30) ''literal'' = Some (Prim (PStr ''bloomberg.shop.cart''))
   \<and> get_prop (heap shop_done) (Ref 30) ''object'' = Some (Ref 28)
   \<and> get_prop (heap shop_done) (Ref 33) ''__super__'' = get_prop (heap shop_done) (Ref 26) ''prototype''"
proof -
  from view_is_extended[OF shop_done_eval] obtain child proto cfg nso where
    a: "get_prop (heap shop_done) (Ref 28) ''View'' = Some (Ref child)"
    and b: "kind (heap shop_done ! child) = Function"
    and c: "get_prop (heap shop_done) (Ref child) ''prototype'' = Some proto"
    and d: "get_prop (heap shop_done) proto ''config'' = Some cfg"
    and e: "get_prop (heap shop_done) cfg ''namespace'' = Some nso"
    and f: "get_prop (heap shop_done) nso ''literal'' = Some (Prim (PStr (full_name ''shop.cart'')))"
    and g: "get_prop (heap shop_done) nso ''object'' = Some (Ref 28)"
    and h: "\<forall>m mv. Some 28 = Some m \<and> ''shop.cart'' \<noteq> [] \<and> m < length (heap shop_call)
           \<and> distinct (trail (heap shop_call) (Ref (root shop_call)) (Ref m) (path_parts ''shop.cart''))
           \<and> ''View'' \<in> set (own_keys (heap shop_call) (Ref m))
           \<and> get_prop (heap shop_call) (Ref m) ''View'' = Some mv
         \<longrightarrow> mv \<noteq> Ref child
             \<and> get_prop (heap shop_done) (Ref child) ''__super__'' = get_prop (heap shop_done) mv ''prototype''"
    by blast
  have v: "get_prop (heap shop_done) (Ref 28) ''View'' = Some (Ref 33)"
    by (simp add: shop_done_def shop_call_eval run_defs)
  with a have ch: "child = 33" by simp
  have p: "get_prop (heap shop_done) (Ref 33) ''prototype'' = Some (Ref 34)"
    by (simp add: shop_done_def shop_call_eval run_defs)
  with c ch have pr: "proto = Ref 34" by simp
  have q: "get_prop (heap shop_done) (Ref 34) ''config'' = Some (Ref 31)"
    by (simp add: shop_done_def shop_call_eval run_defs)
  with d pr have cf: "cfg = Ref 31" by simp
  have r: "get_prop (heap shop_done) (Ref 31) ''namespace'' = Some (Ref 30)"
    by (simp add: shop_done_def shop_call_eval run_defs)
  with e cf have ns: "nso = Ref 30" by simp
  have fn: "full_name ''shop.cart'' = ''bloomberg.shop.cart''"
    by (simp add: full_name_def rootObject_def)
  have k: "28 < length (heap shop_call)" "''View'' \<in> set (own_keys (heap shop_call) (Ref 28))"
    "get_prop (heap shop_call) (Ref 28) ''View'' = Some (Ref 26)"
    by (simp_all add: shop_call_eval run_defs)
  from h k shop_trail
  have s: "get_prop (heap shop_done) (Ref child) ''__super__'' = get_prop (heap shop_done) (Ref 26) ''prototype''"
    by blast
  show ?thesis
    using shop_done_eval k(3) v b[unfolded ch] p q r f[unfolded ns fn] g[unfolded ns] s[unfolded ch]
    by blast
qed

section \<open>A registration that raises leaves no record\<close>



end
